theory Spec2Isabelle
  imports Main "HOL-Library.AList"
begin

section \<open>Values\<close>

text \<open>
  The descriptors of \<^verbatim>\<open>src/service.ts\<close> are JavaScript values that come from a YAML file or
  from the Cloud Run API: trees of null, booleans, numbers, strings, arrays and plain objects.
  An object is the list of its properties in insertion order; a JavaScript object holds each key
  once. Numbers are integers here (no descriptor field the program reads is a fraction), and a
  string is the list of its code units, those that fit the 8-bit characters of HOL. The
  JavaScript value \<^verbatim>\<open>undefined\<close> is not a tree: a value that may be undefined is a
  \<open>json option\<close>, with \<open>None\<close> for undefined.
\<close>

datatype json =
    JNull
  | JBool bool
  | JNum int
  | JStr string
  | JArr "json list"
  | JObj "(string \<times> json) list"

text \<open>
  What the program can throw, one constructor for each \<^verbatim>\<open>throw\<close> of the source and one for the
  errors the JavaScript engine raises:
  \<^item> \<open>ProvideInputs\<close>: \<^verbatim>\<open>Error('Provide image and services names or a YAML file.')\<close>;
  \<^item> \<open>EnvVarFormat t\<close>: \<^verbatim>\<open>TypeError('Env Vars must be in "KEY1=VALUE1,KEY2=VALUE2" format, received t')\<close>;
  \<^item> \<open>YamlLoad\<close>: whatever \<^verbatim>\<open>fs.readFileSync\<close> or \<^verbatim>\<open>YAML.parse\<close> throws;
  \<^item> \<open>NoContainer\<close>: \<^verbatim>\<open>Error('No container defined. Set image as an input or in YAML config.')\<close>;
  \<^item> \<open>ResourceName\<close>: \<^verbatim>\<open>Error('Resource name must use only lowercase letters ...')\<close>;
  \<^item> \<open>JsTypeError\<close>: the engine's TypeError for a property read from or written to null or
    undefined, a property written to a primitive value (the module is strict code), or a call of
    a method the value does not have.
  \<open>OutOfModel\<close> is not an exception. It marks a run that leaves the trees above: a named
  property stored on an array, or a value outside the declared TypeScript type at a place where
  JavaScript would go on coercing it. Nothing is claimed about such runs.
\<close>

datatype error =
    ProvideInputs
  | EnvVarFormat string
  | YamlLoad
  | NoContainer
  | ResourceName
  | JsTypeError
  | OutOfModel

text \<open>The two error classes of the specification, as sets of the errors above.\<close>

fun is_InputError :: "error \<Rightarrow> bool" where
  "is_InputError ProvideInputs = True"
| "is_InputError (EnvVarFormat t) = True"
| "is_InputError e = False"

fun is_ValidationError :: "error \<Rightarrow> bool" where
  "is_ValidationError NoContainer = True"
| "is_ValidationError ResourceName = True"
| "is_ValidationError e = False"

definition bind_err :: "error + 'a \<Rightarrow> ('a \<Rightarrow> error + 'b) \<Rightarrow> error + 'b" where
  "bind_err m f = (case m of Inl e \<Rightarrow> Inl e | Inr x \<Rightarrow> f x)"

section \<open>Strings\<close>

text \<open>
  \<^verbatim>\<open>s.split(c)\<close> for a separator of one character: the pieces between the occurrences of
  \<open>c\<close>, one more piece than there are occurrences; the empty string gives one empty piece.
\<close>

fun split :: "char \<Rightarrow> string \<Rightarrow> string list" where
  "split c [] = [[]]"
| "split c (x # xs) =
     (if x = c then [] # split c xs
      else (let r = split c xs in (x # hd r) # tl r))"

section \<open>parseEnvVars\<close>

text \<open>
  \<^verbatim>\<open>
  const envVarList = envVarInput.split(',');
  const envVars = envVarList.map((envVar) => {
    if (!envVar.includes('=')) { throw new TypeError(...received ${envVar}) }
    const keyValue = envVar.split('=');
    return { name: keyValue[0], value: keyValue[1] };
  });
  \<close>
  A token that contains \<open>=\<close> splits into at least two pieces, so both indices exist.
  \<open>env_var n v\<close> is the object \<^verbatim>\<open>{ name: n, value: v }\<close>.
\<close>

definition env_var :: "string \<Rightarrow> string \<Rightarrow> json" where
  "env_var n v = JObj [(''name'', JStr n), (''value'', JStr v)]"

definition parseEnvVar :: "string \<Rightarrow> error + json" where
  "parseEnvVar envVar =
     (if CHR ''='' \<notin> set envVar then Inl (EnvVarFormat envVar)
      else (let keyValue = split CHR ''='' envVar
            in Inr (env_var (keyValue ! 0) (keyValue ! 1))))"

fun map_err :: "('a \<Rightarrow> error + 'b) \<Rightarrow> 'a list \<Rightarrow> error + 'b list" where
  "map_err f [] = Inr []"
| "map_err f (x # xs) =
     (case f x of Inl e \<Rightarrow> Inl e
      | Inr y \<Rightarrow> (case map_err f xs of Inl e \<Rightarrow> Inl e | Inr ys \<Rightarrow> Inr (y # ys)))"

definition parseEnvVars :: "string \<Rightarrow> error + json list" where
  "parseEnvVars envVarInput = map_err parseEnvVar (split CHR '','' envVarInput)"

section \<open>Reading and writing properties\<close>

text \<open>
  JavaScript's truthiness, which every \<^verbatim>\<open>if (x)\<close> and \<^verbatim>\<open>!x\<close> of the source tests: undefined,
  null, false, 0 and the empty string are falsy; every array and object is truthy, the empty
  ones too.
\<close>

fun truthy :: "json option \<Rightarrow> bool" where
  "truthy None = False"
| "truthy (Some JNull) = False"
| "truthy (Some (JBool b)) = b"
| "truthy (Some (JNum n)) = (n \<noteq> 0)"
| "truthy (Some (JStr s)) = (s \<noteq> [])"
| "truthy (Some (JArr xs)) = True"
| "truthy (Some (JObj f)) = True"

text \<open>An optional string input (\<^verbatim>\<open>opts.name\<close> and the like): given and not empty.\<close>

fun truthy_str :: "string option \<Rightarrow> bool" where
  "truthy_str None = False"
| "truthy_str (Some s) = (s \<noteq> [])"

text \<open>
  \<^verbatim>\<open>v[k]\<close> on a value that is neither null nor undefined, for the property names this program
  reads: \<^verbatim>\<open>metadata\<close>, \<^verbatim>\<open>name\<close>, \<^verbatim>\<open>spec\<close>, \<^verbatim>\<open>template\<close>, \<^verbatim>\<open>containers\<close>, \<^verbatim>\<open>env\<close> and the index
  \<^verbatim>\<open>0\<close>. An object gives the property or undefined; an array and a string have the index
  and none of the names; a boolean and a number have neither.
\<close>

fun js_get :: "json \<Rightarrow> string \<Rightarrow> json option" where
  "js_get (JObj f) k = map_of f k"
| "js_get (JArr xs) k = (if k = ''0'' then (case xs of [] \<Rightarrow> None | x # _ \<Rightarrow> Some x) else None)"
| "js_get (JStr s) k = (if k = ''0'' then (case s of [] \<Rightarrow> None | c # _ \<Rightarrow> Some (JStr [c])) else None)"
| "js_get v k = None"

text \<open>\<^verbatim>\<open>v.k\<close> as the engine evaluates it: a TypeError when \<open>v\<close> is undefined or null.\<close>

fun read_prop :: "json option \<Rightarrow> string \<Rightarrow> error + json option" where
  "read_prop None k = Inl JsTypeError"
| "read_prop (Some JNull) k = Inl JsTypeError"
| "read_prop (Some v) k = Inr (js_get v k)"

text \<open>A chain \<^verbatim>\<open>v.k1.k2...\<close> (the non-null assertion \<^verbatim>\<open>!\<close> of TypeScript checks nothing).\<close>

fun member_chain :: "json option \<Rightarrow> string list \<Rightarrow> error + json option" where
  "member_chain v [] = Inr v"
| "member_chain v (k # ks) = bind_err (read_prop v k) (\<lambda>w. member_chain w ks)"

text \<open>
  \<^verbatim>\<open>t.k = v\<close> for a property name \<open>k\<close>, as the tree after the assignment. An object gets or
  replaces the property. Null and the primitive values throw (strict code). An array would
  carry the name next to its elements, which no tree here holds.
\<close>

fun assign :: "json \<Rightarrow> string \<Rightarrow> json \<Rightarrow> error + json" where
  "assign (JObj f) k v = Inr (JObj (AList.update k v f))"
| "assign (JArr xs) k v = Inl OutOfModel"
| "assign t k v = Inl JsTypeError"

text \<open>
  \<^verbatim>\<open>t.p1...pn.k = v\<close>, as the tree \<open>t\<close> after the assignment: the chain is read as
  \<open>member_chain\<close> reads it and the value it ends in is assigned to. A chain that passes
  through a string can only end in a character, a primitive value.
\<close>

fun store_at :: "json \<Rightarrow> string list \<Rightarrow> string \<Rightarrow> json \<Rightarrow> error + json" where
  "store_at t [] k v = assign t k v"
| "store_at (JObj f) (p # ps) k v =
     (case map_of f p of
        None \<Rightarrow> Inl JsTypeError
      | Some c \<Rightarrow> bind_err (store_at c ps k v) (\<lambda>c'. Inr (JObj (AList.update p c' f))))"
| "store_at (JArr xs) (p # ps) k v =
     (if p = ''0'' then
        (case xs of
           [] \<Rightarrow> Inl JsTypeError
         | c # cs \<Rightarrow> bind_err (store_at c ps k v) (\<lambda>c'. Inr (JArr (c' # cs))))
      else Inl JsTypeError)"
| "store_at t (p # ps) k v = Inl JsTypeError"

section \<open>lodash get\<close>

text \<open>
  \<^verbatim>\<open>get(object, path)\<close> of lodash 4 for a path given as text. A path is kept here as the text
  and the keys lodash parses it into. lodash returns undefined for a null object; it takes
  the whole text as one key when the object has a property of exactly that name; otherwise it
  walks the keys for as long as the value is neither null nor undefined, and gives undefined
  when it had to stop early.
\<close>

fun walk :: "json option \<Rightarrow> string list \<Rightarrow> json option" where
  "walk v [] = v"
| "walk None (k # ks) = None"
| "walk (Some JNull) (k # ks) = None"
| "walk (Some t) (k # ks) = walk (js_get t k) ks"

fun lodash_get :: "json \<Rightarrow> string \<times> string list \<Rightarrow> json option" where
  "lodash_get JNull (lit, keys) = None"
| "lodash_get (JObj f) (lit, keys) =
     (case map_of f lit of Some v \<Rightarrow> Some v | None \<Rightarrow> walk (Some (JObj f)) keys)"
| "lodash_get t (lit, keys) = walk (Some t) keys"

definition spec_path :: "string \<times> string list" where
  "spec_path = (''spec.template.spec'', [''spec'', ''template'', ''spec''])"

definition containers_path :: "string \<times> string list" where
  "containers_path =
     (''spec.template.spec.containers'', [''spec'', ''template'', ''spec'', ''containers''])"

definition container0_path :: "string \<times> string list" where
  "container0_path =
     (''spec.template.spec.containers[0]'',
      [''spec'', ''template'', ''spec'', ''containers'', ''0''])"

definition revision_name_path :: "string \<times> string list" where
  "revision_name_path =
     (''spec.template.metadata.name'', [''spec'', ''template'', ''metadata'', ''name''])"

section \<open>The Service constructor\<close>

text \<open>
  \<^verbatim>\<open>ServiceOptions\<close> and the two fields of a \<^verbatim>\<open>Service\<close>. The fields are named \<open>opt_...\<close>
  and \<open>svc_name\<close> so that \<open>name\<close> stays free for variables. \<^verbatim>\<open>this.name\<close> is declared a string
  and is whatever \<^verbatim>\<open>request.metadata.name\<close> held, undefined included.
\<close>

record ServiceOptions =
  opt_image :: "string option"
  opt_name :: "string option"
  opt_envVars :: "string option"
  opt_yaml :: "string option"

record Service =
  request :: json
  svc_name :: "json option"

definition shell :: json where
  "shell = JObj [(''apiVersion'', JStr ''serving.knative.dev/v1''), (''kind'', JStr ''Service''),
                 (''metadata'', JObj []), (''spec'', JObj [])]"

text \<open>
  \<^verbatim>\<open>
  let envVars;
  if (opts?.envVars) { envVars = parseEnvVars(opts.envVars); }
  \<close>
\<close>

definition parse_opt_envVars :: "ServiceOptions \<Rightarrow> error + json list option" where
  "parse_opt_envVars opts =
     (case opt_envVars opts of
        None \<Rightarrow> Inr None
      | Some s \<Rightarrow> if s = [] then Inr None else bind_err (parseEnvVars s) (\<lambda>l. Inr (Some l)))"

text \<open>
  \<^verbatim>\<open>
  if (opts.yaml) {
    const file = fs.readFileSync(opts.yaml, 'utf8');
    const yaml = YAML.parse(file);
    request = yaml as run_v1.Schema$Service;
  }
  \<close>
  The file system and the YAML parser are the parameter \<open>read_yaml\<close>: the tree parsed from the
  file at a path, or \<open>None\<close> when reading or parsing throws.
\<close>

definition load_request :: "(string \<Rightarrow> json option) \<Rightarrow> ServiceOptions \<Rightarrow> error + json" where
  "load_request read_yaml opts =
     (case opt_yaml opts of
        None \<Rightarrow> Inr shell
      | Some path \<Rightarrow>
          if path = [] then Inr shell
          else (case read_yaml path of None \<Rightarrow> Inl YamlLoad | Some t \<Rightarrow> Inr t))"

text \<open>
  \<^verbatim>\<open>
  if (opts.name) {
    if (request.metadata) { request.metadata.name = opts.name; }
    else { request.metadata = { name: opts.name }; }
  }
  \<close>
\<close>

definition set_name :: "ServiceOptions \<Rightarrow> json \<Rightarrow> error + json" where
  "set_name opts req =
     (case opt_name opts of
        None \<Rightarrow> Inr req
      | Some n \<Rightarrow>
          if n = [] then Inr req
          else bind_err (read_prop (Some req) ''metadata'') (\<lambda>m.
                 if truthy m then store_at req [''metadata''] ''name'' (JStr n)
                 else assign req ''metadata'' (JObj [(''name'', JStr n)])))"

text \<open>
  \<^verbatim>\<open>
  if (opts.image) {
    const container = { image: opts.image };
    if (get(request, 'spec.template.spec')) {
      request.spec!.template!.spec!.containers = [container];
    } else {
      request.spec = { template: { spec: { containers: [container] } } };
    }
  }
  \<close>
\<close>

definition set_image :: "ServiceOptions \<Rightarrow> json \<Rightarrow> error + json" where
  "set_image opts req =
     (case opt_image opts of
        None \<Rightarrow> Inr req
      | Some i \<Rightarrow>
          if i = [] then Inr req
          else (let container = JObj [(''image'', JStr i)]
                in if truthy (lodash_get req spec_path)
                   then store_at req [''spec'', ''template'', ''spec''] ''containers''
                          (JArr [container])
                   else assign req ''spec''
                          (JObj [(''template'',
                             JObj [(''spec'', JObj [(''containers'', JArr [container])])])])))"

text \<open>
  \<^verbatim>\<open>
  if (envVars) {
    if (get(request, 'spec.template.spec.containers[0]')) {
      request.spec!.template!.spec!.containers![0].env = envVars;
    }
  }
  \<close>
  The parsed list is an array, which is truthy.
\<close>

definition set_env :: "json list option \<Rightarrow> json \<Rightarrow> error + json" where
  "set_env envVars req =
     (case envVars of
        None \<Rightarrow> Inr req
      | Some l \<Rightarrow>
          if truthy (lodash_get req container0_path)
          then store_at req [''spec'', ''template'', ''spec'', ''containers'', ''0''] ''env'' (JArr l)
          else Inr req)"

text \<open>The test of \<^verbatim>\<open>if ((!opts.name || !opts.image) && !opts.yaml) throw new Error(...)\<close>.\<close>

definition missing_inputs :: "ServiceOptions \<Rightarrow> bool" where
  "missing_inputs opts =
     ((\<not> truthy_str (opt_name opts) \<or> \<not> truthy_str (opt_image opts))
      \<and> \<not> truthy_str (opt_yaml opts))"

text \<open>
  The constructor, statement by statement; the \<^verbatim>\<open>build\<close> of the specification. It ends with
  \<^verbatim>\<open>this.request = request; this.name = request.metadata!.name!;\<close>.
\<close>

definition build :: "(string \<Rightarrow> json option) \<Rightarrow> ServiceOptions \<Rightarrow> error + Service" where
  "build read_yaml opts =
     (if missing_inputs opts
      then Inl ProvideInputs
      else
        bind_err (parse_opt_envVars opts) (\<lambda>envVars.
        bind_err (load_request read_yaml opts) (\<lambda>req0.
        bind_err (set_name opts req0) (\<lambda>req1.
        bind_err (set_image opts req1) (\<lambda>req2.
        if \<not> truthy (lodash_get req2 containers_path) then Inl NoContainer
        else
          bind_err (set_env envVars req2) (\<lambda>req3.
          bind_err (member_chain (Some req3) [''metadata'', ''name'']) (\<lambda>n.
          Inr \<lparr>request = req3, svc_name = n\<rparr>)))))))"

section \<open>lodash merge\<close>

text \<open>
  \<^verbatim>\<open>merge(object, source)\<close> of lodash 4 writes into \<open>object\<close> and returns it. For every
  property of the source, in order (\<^verbatim>\<open>baseMerge\<close>, \<^verbatim>\<open>baseMergeDeep\<close>, \<^verbatim>\<open>assignMergeValue\<close>):
  \<^item> a source value that is null, a boolean, a number or a string is assigned;
  \<^item> a source array is merged, index by index, into the destination's array at that key, or
    into a new empty array when the destination holds no array there;
  \<^item> a source object is merged, key by key, into the destination's object at that key, or into
    a new empty object when the destination holds null, a primitive value or nothing there.
  Elements and properties of the destination that the source does not have stay as they are.
  The functions below give the value the destination holds afterwards; \<open>merge_value d s\<close> is
  what the key holds whose destination value was \<open>d\<close> (\<open>None\<close> when the key was missing) and
  whose source value is \<open>s\<close>.

  The result is \<open>None\<close> where lodash leaves the trees of this theory: a source object merged
  into a destination array (the array gets named properties), a source array merged into an
  object with a \<^verbatim>\<open>length\<close> that lodash takes for an array, and the key \<^verbatim>\<open>__proto__\<close>.
\<close>

definition array_like :: "(string \<times> json) list \<Rightarrow> bool" where
  "array_like f =
     (case map_of f ''length'' of
        Some (JNum n) \<Rightarrow> 0 \<le> n \<and> n \<le> 9007199254740991
      | _ \<Rightarrow> False)"

fun merge_value :: "json option \<Rightarrow> json \<Rightarrow> json option"
  and merge_elems :: "json list \<Rightarrow> json list \<Rightarrow> json list option"
  and merge_fields :: "(string \<times> json) list \<Rightarrow> (string \<times> json) list \<Rightarrow> (string \<times> json) list option"
where
  "merge_value d (JArr ss) =
     (case d of
        Some (JArr ds) \<Rightarrow> map_option JArr (merge_elems ds ss)
      | Some (JObj df) \<Rightarrow> if array_like df then None else map_option JArr (merge_elems [] ss)
      | _ \<Rightarrow> map_option JArr (merge_elems [] ss))"
| "merge_value d (JObj sf) =
     (case d of
        Some (JObj df) \<Rightarrow> map_option JObj (merge_fields df sf)
      | Some (JArr ds) \<Rightarrow> if sf = [] then Some (JArr ds) else None
      | _ \<Rightarrow> map_option JObj (merge_fields [] sf))"
| "merge_value d JNull = Some JNull"
| "merge_value d (JBool b) = Some (JBool b)"
| "merge_value d (JNum n) = Some (JNum n)"
| "merge_value d (JStr s) = Some (JStr s)"
| "merge_elems ds [] = Some ds"
| "merge_elems ds (s # ss) =
     (case merge_value (case ds of [] \<Rightarrow> None | d # _ \<Rightarrow> Some d) s of
        None \<Rightarrow> None
      | Some v \<Rightarrow> map_option (Cons v) (merge_elems (tl ds) ss))"
| "merge_fields df [] = Some df"
| "merge_fields df ((k, v) # sf) =
     (if k = ''__proto__'' then None
      else (case merge_value (map_of df k) v of
              None \<Rightarrow> None
            | Some v' \<Rightarrow> merge_fields (AList.update k v' df) sf))"

section \<open>generateRevisionName\<close>

text \<open>
  \<^verbatim>\<open>parseInt(s)\<close> with no radix: leading white space is skipped, a sign is read, \<^verbatim>\<open>0x\<close> or
  \<^verbatim>\<open>0X\<close> switches to base 16, and the longest run of digits is the number; no digit at all gives
  NaN, which is \<open>None\<close> here. The white space of the 8-bit code units is listed.
\<close>

definition is_space :: "char \<Rightarrow> bool" where
  "is_space c = (c \<in> set [CHR '' '', CHR 0x09, CHR 0x0A, CHR 0x0B, CHR 0x0C, CHR 0x0D, CHR 0xA0])"

fun index_of :: "char \<Rightarrow> string \<Rightarrow> nat option" where
  "index_of c [] = None"
| "index_of c (x # xs) = (if c = x then Some 0 else map_option Suc (index_of c xs))"

definition digit_value :: "nat \<Rightarrow> char \<Rightarrow> nat option" where
  "digit_value radix c =
     (case index_of c ''0123456789abcdef'' of
        Some d \<Rightarrow> if d < radix then Some d else None
      | None \<Rightarrow>
          (case index_of c ''ABCDEF'' of
             Some d \<Rightarrow> if 10 + d < radix then Some (10 + d) else None
           | None \<Rightarrow> None))"

fun leading_digits :: "nat \<Rightarrow> string \<Rightarrow> nat list" where
  "leading_digits radix [] = []"
| "leading_digits radix (c # cs) =
     (case digit_value radix c of None \<Rightarrow> [] | Some d \<Rightarrow> d # leading_digits radix cs)"

definition parseInt :: "string \<Rightarrow> int option" where
  "parseInt s =
     (let s1 = dropWhile is_space s;
          neg = (take 1 s1 = ''-'');
          s2 = (if take 1 s1 = ''-'' \<or> take 1 s1 = ''+'' then drop 1 s1 else s1);
          hex = (take 2 s2 = ''0x'' \<or> take 2 s2 = ''0X'');
          radix = (if hex then 16 else 10);
          ds = leading_digits radix (if hex then drop 2 s2 else s2)
      in if ds = [] then None
         else Some ((if neg then - 1 else 1) * int (foldl (\<lambda>a d. a * radix + d) 0 ds)))"

text \<open>\<^verbatim>\<open>n.toString()\<close> for an integer, and \<^verbatim>\<open>s.padStart(4, '0')\<close>.\<close>

fun dec_digits :: "nat \<Rightarrow> string" where
  "dec_digits n =
     (if n < 10 then [''0123456789'' ! n]
      else dec_digits (n div 10) @ [''0123456789'' ! (n mod 10)])"

declare dec_digits.simps [simp del]

definition show_int :: "int \<Rightarrow> string" where
  "show_int i = (if i < 0 then CHR ''-'' # dec_digits (nat (- i)) else dec_digits (nat i))"

definition padStart4 :: "string \<Rightarrow> string" where
  "padStart4 s = replicate (4 - length s) CHR ''0'' @ s"

text \<open>
  \<^verbatim>\<open>
  const suffix = prevName!.split('-');
  num = (parseInt(suffix[suffix.length - 2]) + 1).toString();
  \<close>
  A name with no hyphen has no second-to-last piece: \<^verbatim>\<open>parseInt(undefined)\<close> is NaN, and
  \<^verbatim>\<open>(NaN + 1).toString()\<close> is the text \<^verbatim>\<open>NaN\<close>. Numbers are exact below \<open>2^53\<close>; from there on
  JavaScript rounds, and the model stops.
\<close>

definition next_num :: "string \<Rightarrow> error + string" where
  "next_num prevName =
     (let suffix = split CHR ''-'' prevName
      in case (if length suffix < 2 then None else parseInt (suffix ! (length suffix - 2))) of
           None \<Rightarrow> Inr ''NaN''
         | Some n \<Rightarrow> if n < 9007199254740992 then Inr (show_int (n + 1)) else Inl OutOfModel)"

definition is_lower :: "char \<Rightarrow> bool" where
  "is_lower c = (c \<in> set ''abcdefghijklmnopqrstuvwxyz'')"

text \<open>
  The branch \<^verbatim>\<open>if (!name) { ... }\<close>. \<open>rnd\<close> is the text \<^verbatim>\<open>Math.random().toString(36)\<close>, the
  one input of the function that is not an argument: \<^verbatim>\<open>0.\<close> and digits of base 36.
  \<^verbatim>\<open>
  if (prevName) { ...num as above... } else { num = '1'; }
  const letters = Math.random().toString(36).replace(/[^a-z]+/g, '').substring(0, 3);
  const newSuffix = `-${num.padStart(4, '0')}-${letters}`;
  const serviceName = this.name.substring(0, 53);
  name = serviceName + newSuffix;
  \<close>
  Only a string has \<^verbatim>\<open>split\<close> and \<^verbatim>\<open>substring\<close>.
\<close>

definition autoRevisionName :: "json option \<Rightarrow> string \<Rightarrow> json option \<Rightarrow> error + json" where
  "autoRevisionName this_name rnd prevName =
     bind_err
       (if truthy prevName
        then (case prevName of Some (JStr p) \<Rightarrow> next_num p | _ \<Rightarrow> Inl JsTypeError)
        else Inr ''1'')
       (\<lambda>num.
          let letters = take 3 (filter is_lower rnd);
              newSuffix = ''-'' @ padStart4 num @ ''-'' @ letters
          in case this_name of
               Some (JStr n) \<Rightarrow> Inr (JStr (take 53 n @ newSuffix))
             | _ \<Rightarrow> Inl JsTypeError)"

text \<open>
  \<^verbatim>\<open>
  if (name && name.length > 63) throw new Error(message);
  if (!name) { ... }
  return name;
  \<close>
  \<open>name\<close> and \<open>prevName\<close> are what lodash get found in the two descriptors. A truthy name that
  is no string is returned as it is when it has no \<^verbatim>\<open>length\<close> (a boolean, a number); an array
  has its length compared; for an object the comparison coerces whatever its \<^verbatim>\<open>length\<close>
  property holds, where the model stops.
\<close>

definition generateRevisionName ::
    "json option \<Rightarrow> string \<Rightarrow> json option \<Rightarrow> json option \<Rightarrow> error + json" where
  "generateRevisionName this_name rnd name prevName =
     (case name of
        None \<Rightarrow> autoRevisionName this_name rnd prevName
      | Some v \<Rightarrow>
          if \<not> truthy (Some v) then autoRevisionName this_name rnd prevName
          else (case v of
                  JStr s \<Rightarrow> if length s > 63 then Inl ResourceName else Inr v
                | JArr xs \<Rightarrow> if length xs > 63 then Inl ResourceName else Inr v
                | JObj f \<Rightarrow> Inl OutOfModel
                | _ \<Rightarrow> Inr v))"

section \<open>Service.merge\<close>

text \<open>
  \<^verbatim>\<open>keys.includes(x)\<close> compares with SameValueZero: primitive values by value, arrays and
  objects by identity. The keys come from the current descriptor and \<open>x\<close> from the previous
  one, two trees that share no node.
\<close>

fun same_value_zero :: "json option \<Rightarrow> json option \<Rightarrow> bool" where
  "same_value_zero None None = True"
| "same_value_zero (Some JNull) (Some JNull) = True"
| "same_value_zero (Some (JBool a)) (Some (JBool b)) = (a = b)"
| "same_value_zero (Some (JNum a)) (Some (JNum b)) = (a = b)"
| "same_value_zero (Some (JStr a)) (Some (JStr b)) = (a = b)"
| "same_value_zero x y = False"

definition js_includes :: "json option list \<Rightarrow> json option \<Rightarrow> bool" where
  "js_includes keys x = list_ex (same_value_zero x) keys"

text \<open>
  \<^verbatim>\<open>
  prevEnvVars?.forEach((envVar) => {
    if (!keys.includes(envVar.name)) { return env.push(envVar); }
  });
  \<close>
  \<open>keys\<close> is computed once, before the loop.
\<close>

fun push_old :: "json option list \<Rightarrow> json list \<Rightarrow> json list \<Rightarrow> error + json list" where
  "push_old keys env [] = Inr env"
| "push_old keys env (envVar # rest) =
     bind_err (read_prop (Some envVar) ''name'') (\<lambda>n.
       push_old keys (if js_includes keys n then env else env @ [envVar]) rest)"

text \<open>
  \<^verbatim>\<open>
  let env = [];
  if (currentEnvVars) { env = currentEnvVars.map((envVar) => envVar); }
  const keys = env?.map((envVar) => envVar.name);
  prevEnvVars?.forEach(...);
  \<close>
  Only an array has \<^verbatim>\<open>map\<close> and \<^verbatim>\<open>forEach\<close>; \<^verbatim>\<open>?.\<close> skips the call on null and undefined.
\<close>

definition merge_env :: "json option \<Rightarrow> json option \<Rightarrow> error + json list" where
  "merge_env currentEnvVars prevEnvVars =
     bind_err
       (if truthy currentEnvVars
        then (case currentEnvVars of Some (JArr xs) \<Rightarrow> Inr xs | _ \<Rightarrow> Inl JsTypeError)
        else Inr [])
       (\<lambda>env.
     bind_err (map_err (\<lambda>envVar. read_prop (Some envVar) ''name'') env) (\<lambda>keys.
       case prevEnvVars of
         None \<Rightarrow> Inr env
       | Some JNull \<Rightarrow> Inr env
       | Some (JArr ps) \<Rightarrow> push_old keys env ps
       | Some _ \<Rightarrow> Inl JsTypeError))"

text \<open>
  \<^verbatim>\<open>
  mergedServices.spec!.template!.metadata!.name = this.generateRevisionName(name, previousName);
  \<close>
  The chain on the left is read first, then the call is made, then the property is stored.
\<close>

definition force_revision_name :: "json \<Rightarrow> error + json \<Rightarrow> error + json" where
  "force_revision_name mergedServices generated =
     bind_err (member_chain (Some mergedServices) [''spec'', ''template'', ''metadata'']) (\<lambda>_.
     bind_err generated (\<lambda>n.
       store_at mergedServices [''spec'', ''template'', ''metadata''] ''name'' n))"

text \<open>
  \<^verbatim>\<open>
  const prevEnvVars = prevService.spec!.template!.spec!.containers![0].env;
  const currentEnvVars = this.request.spec!.template!.spec!.containers![0].env;
  ...
  mergedServices.spec!.template!.spec!.containers![0].env = env;
  \<close>
  \<open>prevService\<close> is read after the deep merge has written into it: it is the merged tree.
\<close>

definition env_chain :: "string list" where
  "env_chain = [''spec'', ''template'', ''spec'', ''containers'', ''0'', ''env'']"

definition reconcile_env :: "json \<Rightarrow> json \<Rightarrow> error + json" where
  "reconcile_env mergedServices this_request =
     bind_err (member_chain (Some mergedServices) env_chain) (\<lambda>prevEnvVars.
     bind_err (member_chain (Some this_request) env_chain) (\<lambda>currentEnvVars.
     bind_err (merge_env currentEnvVars prevEnvVars) (\<lambda>env.
       store_at mergedServices [''spec'', ''template'', ''spec'', ''containers'', ''0'']
         ''env'' (JArr env))))"

text \<open>
  The method, as a function of the random text, the Service and the previous descriptor. It
  returns what was thrown (\<open>None\<close> when the method returns), the Service afterwards and the
  object \<open>prevService\<close> afterwards. \<^verbatim>\<open>merge(prevService, this.request)\<close> writes the merged tree
  into \<open>prevService\<close>, and \<open>mergedServices\<close> is that same object: every later store into
  \<open>mergedServices\<close> is a store into \<open>prevService\<close>. \<open>this.request\<close> is replaced in the last
  statement only. Both descriptors are declared \<^verbatim>\<open>run_v1.Schema$Service\<close>, an object type; for
  any other value, and where lodash leaves the trees, the outcome is \<open>OutOfModel\<close> and the
  third component means nothing.
\<close>

definition merge :: "string \<Rightarrow> Service \<Rightarrow> json \<Rightarrow> error option \<times> Service \<times> json" where
  "merge rnd this prevService =
     (case prevService of
        JObj pf \<Rightarrow>
          (case request this of
             JObj tf \<Rightarrow>
               (let name = lodash_get (request this) revision_name_path;
                    previousName = lodash_get prevService revision_name_path
                in case merge_fields pf tf of
                     None \<Rightarrow> (Some OutOfModel, this, prevService)
                   | Some mf \<Rightarrow>
                       (case force_revision_name (JObj mf)
                               (generateRevisionName (svc_name this) rnd name previousName) of
                          Inl e \<Rightarrow> (Some e, this, JObj mf)
                        | Inr merged1 \<Rightarrow>
                            (case reconcile_env merged1 (request this) of
                               Inl e \<Rightarrow> (Some e, this, merged1)
                             | Inr merged2 \<Rightarrow> (None, this\<lparr>request := merged2\<rparr>, merged2))))
           | _ \<Rightarrow> (Some OutOfModel, this, prevService))
      | _ \<Rightarrow> (Some OutOfModel, this, prevService))"

section \<open>The first container of a descriptor\<close>

text \<open>
  The first container of a descriptor and its env list, read the way the declared type
  \<^verbatim>\<open>run_v1.Schema$Service\<close> has them: names are looked up in objects only, the index \<^verbatim>\<open>0\<close> in
  arrays only. \<open>env_list\<close> is the env list of the first container, empty when there is none;
  \<open>var_names\<close> are the \<^verbatim>\<open>name\<close> properties of its entries, as \<^verbatim>\<open>envVar.name\<close> reads them.
\<close>

fun typed_walk :: "json option \<Rightarrow> string list \<Rightarrow> json option" where
  "typed_walk v [] = v"
| "typed_walk (Some (JObj f)) (k # ks) = (if k = ''0'' then None else typed_walk (map_of f k) ks)"
| "typed_walk (Some (JArr xs)) (k # ks) =
     (if k = ''0'' then (case xs of [] \<Rightarrow> None | x # _ \<Rightarrow> typed_walk (Some x) ks) else None)"
| "typed_walk v (k # ks) = None"

definition container0_chain :: "string list" where
  "container0_chain = [''spec'', ''template'', ''spec'', ''containers'', ''0'']"

definition arr_list :: "json option \<Rightarrow> json list" where
  "arr_list v = (case v of Some (JArr xs) \<Rightarrow> xs | _ \<Rightarrow> [])"

definition env_list :: "json \<Rightarrow> json list" where
  "env_list t = arr_list (typed_walk (Some t) env_chain)"

definition var_names :: "json list \<Rightarrow> json option list" where
  "var_names xs = map (\<lambda>envVar. js_get envVar ''name'') xs"

text \<open>
  An env entry as the declared type has it: an object whose \<^verbatim>\<open>name\<close>, when it has one, is a
  primitive value (a string, or null) and not an array or an object.
\<close>

fun plain_var :: "json \<Rightarrow> bool" where
  "plain_var (JObj f) =
     (case map_of f ''name'' of Some (JArr xs) \<Rightarrow> False | Some (JObj g) \<Rightarrow> False | _ \<Rightarrow> True)"
| "plain_var v = False"

text \<open>
  The invariant of the representation: a JavaScript object holds every key once, so no
  property list of a tree repeats a key.
\<close>

fun unique_keys :: "json \<Rightarrow> bool"
  and unique_keys_list :: "json list \<Rightarrow> bool"
  and unique_keys_fields :: "(string \<times> json) list \<Rightarrow> bool"
where
  "unique_keys (JObj f) = (distinct (map fst f) \<and> unique_keys_fields f)"
| "unique_keys (JArr xs) = unique_keys_list xs"
| "unique_keys v = True"
| "unique_keys_list [] = True"
| "unique_keys_list (x # xs) = (unique_keys x \<and> unique_keys_list xs)"
| "unique_keys_fields [] = True"
| "unique_keys_fields ((k, v) # f) = (unique_keys v \<and> unique_keys_fields f)"

text \<open>
  A descriptor of the service \<^verbatim>\<open>svc\<close> with one container, given the properties of its
  revision metadata and of the container; the examples below are built with it.
\<close>

definition descriptor :: "(string \<times> json) list \<Rightarrow> (string \<times> json) list \<Rightarrow> json" where
  "descriptor revision container =
     JObj [(''metadata'', JObj [(''name'', JStr ''svc'')]),
           (''spec'', JObj [(''template'',
              JObj [(''metadata'', JObj revision),
                    (''spec'', JObj [(''containers'', JArr [JObj container])])])])]"

section \<open>Facts about split and the error values\<close>

lemma bind_err_simps [simp]:
  "bind_err (Inl e) f = Inl e" "bind_err (Inr x) f = f x"
  by (simp_all add: bind_err_def)

lemma length_split: "length (split c s) = Suc (length (filter (\<lambda>x. x = c) s))"
proof (induction s)
  case Nil
  then show ?case by simp
next
  case (Cons x s)
  then have "split c s \<noteq> []" by auto
  with Cons show ?case by (simp add: Let_def)
qed

lemma split_two_pieces: "c \<in> set s \<Longrightarrow> 2 \<le> length (split c s)"
proof -
  assume "c \<in> set s"
  then have "filter (\<lambda>x. x = c) s \<noteq> []" by (auto simp: filter_empty_conv)
  then have "0 < length (filter (\<lambda>x. x = c) s)" by (rule length_greater_0_conv [THEN iffD2])
  then show ?thesis unfolding length_split by arith
qed

lemma split_no_sep: "c \<notin> set s \<Longrightarrow> split c s = [s]"
  by (induction s) (auto simp: Let_def)

lemma split_at_sep: "c \<notin> set a \<Longrightarrow> split c (a @ c # r) = a # split c r"
  by (induction a) (auto simp: Let_def)

lemma map_err_Inl: "map_err f xs = Inl e \<Longrightarrow> \<exists>x\<in>set xs. f x = Inl e"
  by (induction xs) (auto split: sum.splits)

lemma map_err_Inr: "map_err f xs = Inr ys \<Longrightarrow> \<forall>x\<in>set xs. \<exists>y. f x = Inr y"
  by (induction xs arbitrary: ys) (auto split: sum.splits)

lemma parseEnvVars_fails_iff:
  "(\<exists>e. parseEnvVars s = Inl e) \<longleftrightarrow> (\<exists>t\<in>set (split CHR '','' s). CHR ''='' \<notin> set t)"
proof
  assume "\<exists>e. parseEnvVars s = Inl e"
  then obtain e where "map_err parseEnvVar (split CHR '','' s) = Inl e"
    by (auto simp: parseEnvVars_def)
  then obtain t where "t \<in> set (split CHR '','' s)" "parseEnvVar t = Inl e"
    by (blast dest: map_err_Inl)
  then show "\<exists>t\<in>set (split CHR '','' s). CHR ''='' \<notin> set t"
    by (auto simp: parseEnvVar_def Let_def split: if_splits)
next
  assume "\<exists>t\<in>set (split CHR '','' s). CHR ''='' \<notin> set t"
  then obtain t where t: "t \<in> set (split CHR '','' s)" "CHR ''='' \<notin> set t" by blast
  show "\<exists>e. parseEnvVars s = Inl e"
  proof (cases "parseEnvVars s")
    case (Inl e) then show ?thesis by blast
  next
    case (Inr ys)
    then have "\<exists>y. parseEnvVar t = Inr y"
      using t(1) by (auto simp: parseEnvVars_def dest: map_err_Inr)
    with t(2) show ?thesis by (simp add: parseEnvVar_def)
  qed
qed

lemma parseEnvVars_error: "parseEnvVars s = Inl e \<Longrightarrow> is_InputError e"
  by (auto simp: parseEnvVars_def parseEnvVar_def Let_def dest!: map_err_Inl split: if_splits)

lemma assign_error: "assign t k v = Inl e \<Longrightarrow> e = JsTypeError \<or> e = OutOfModel"
  by (cases t) auto

lemma store_at_error: "store_at t ps k v = Inl e \<Longrightarrow> e = JsTypeError \<or> e = OutOfModel"
proof (induction t ps k v rule: store_at.induct)
  case (1 t k v)
  then show ?case by (auto dest: assign_error)
next
  case (2 f p ps k v)
  then show ?case by (auto simp: bind_err_def split: option.splits sum.splits)
next
  case (3 xs p ps k v)
  then show ?case by (auto simp: bind_err_def split: option.splits sum.splits list.splits if_splits)
qed auto

lemma read_prop_error: "read_prop v k = Inl e \<Longrightarrow> e = JsTypeError"
  by (cases "(v, k)" rule: read_prop.cases) auto

lemma member_chain_error: "member_chain v ks = Inl e \<Longrightarrow> e = JsTypeError"
  by (induction ks arbitrary: v) (auto simp: bind_err_def split: sum.splits dest: read_prop_error)

lemma load_request_error: "load_request read_yaml opts = Inl e \<Longrightarrow> e = YamlLoad"
  by (auto simp: load_request_def split: option.splits if_splits)

lemma set_name_error: "set_name opts req = Inl e \<Longrightarrow> e = JsTypeError \<or> e = OutOfModel"
  by (auto simp: set_name_def bind_err_def split: option.splits if_splits sum.splits
      dest: read_prop_error store_at_error assign_error)

lemma set_image_error: "set_image opts req = Inl e \<Longrightarrow> e = JsTypeError \<or> e = OutOfModel"
  by (auto simp: set_image_def Let_def split: option.splits if_splits
      dest: store_at_error assign_error)

lemma set_env_error: "set_env ev req = Inl e \<Longrightarrow> e = JsTypeError \<or> e = OutOfModel"
  by (auto simp: set_env_def split: option.splits if_splits dest: store_at_error)

lemma parse_opt_envVars_fails_iff:
  "(\<exists>e. parse_opt_envVars opts = Inl e) \<longleftrightarrow>
     (\<exists>s. opt_envVars opts = Some s \<and> s \<noteq> [] \<and> (\<exists>t\<in>set (split CHR '','' s). CHR ''='' \<notin> set t))"
  using parseEnvVars_fails_iff
  by (auto simp: parse_opt_envVars_def bind_err_def split: option.splits sum.splits) (metis sum.simps(4))+

lemma parse_opt_envVars_error: "parse_opt_envVars opts = Inl e \<Longrightarrow> is_InputError e"
  by (auto simp: parse_opt_envVars_def bind_err_def split: option.splits sum.splits if_splits
      dest: parseEnvVars_error)

lemma after_parse_error:
  assumes "\<not> missing_inputs opts" and "parse_opt_envVars opts = Inr ev"
    and "build read_yaml opts = Inl e"
  shows "\<not> is_InputError e"
  using assms
  by (auto simp: build_def bind_err_def split: sum.splits if_splits
      dest!: load_request_error set_name_error set_image_error set_env_error read_prop_error)


lemma map_err_index:
  assumes "map_err f xs = Inr ys"
  shows "length ys = length xs \<and> (\<forall>i<length xs. f (xs ! i) = Inr (ys ! i))"
  using assms
proof (induction xs arbitrary: ys)
  case Nil
  then show ?case by simp
next
  case (Cons x xs)
  from Cons.prems obtain y ys' where y: "f x = Inr y" and ys': "map_err f xs = Inr ys'"
    and ys: "ys = y # ys'"
    by (auto split: sum.splits)
  from Cons.IH [OF ys'] y ys show ?case
    by (auto simp: nth_Cons split: nat.splits)
qed

lemma map_err_all_Inr:
  assumes "\<forall>x\<in>set xs. \<exists>y. f x = Inr y"
  shows "\<exists>ys. map_err f xs = Inr ys"
  using assms by (induction xs) auto

lemma parseEnvVar_two_equals:
  assumes "CHR ''='' \<notin> set a" and "CHR ''='' \<notin> set b"
  shows "parseEnvVar (a @ CHR ''='' # b @ CHR ''='' # rest)
           = Inr (JObj [(''name'', JStr a), (''value'', JStr b)])"
proof -
  have "split CHR ''='' (a @ CHR ''='' # b @ CHR ''='' # rest) = a # b # split CHR ''='' rest"
    using assms by (simp add: split_at_sep)
  then show ?thesis
    unfolding parseEnvVar_def by (simp add: Let_def env_var_def)
qed

section \<open>parseEnvVars: more than one equals sign\<close>

text \<open>
  C10. Let the input be any comma-delimited string and let its token number \<open>i\<close> have two or
  more \<open>=\<close>: it is \<open>a = b = rest\<close> with no \<open>=\<close> in \<open>a\<close> and \<open>b\<close>. Whenever parseEnvVars
  returns, it returns one entry for every token, in order, and entry \<open>i\<close> has the name \<open>a\<close>
  and the value \<open>b\<close>: \<open>rest\<close>, the text after the second \<open>=\<close>, is in neither. The token is
  not rejected: parseEnvVars returns when every token has an \<open>=\<close>, and when it throws, the
  token it complains about is another one.
\<close>

theorem parseEnvVars_drops_after_second_equals:
  assumes "i < length (split CHR '','' s)"
    and "split CHR '','' s ! i = a @ CHR ''='' # b @ CHR ''='' # rest"
    and "CHR ''='' \<notin> set a" and "CHR ''='' \<notin> set b"
  shows "(\<forall>entries. parseEnvVars s = Inr entries \<longrightarrow>
            length entries = length (split CHR '','' s)
            \<and> entries ! i = JObj [(''name'', JStr a), (''value'', JStr b)])
       \<and> ((\<forall>t\<in>set (split CHR '','' s). CHR ''='' \<in> set t) \<longrightarrow>
            (\<exists>entries. parseEnvVars s = Inr entries))
       \<and> parseEnvVars s \<noteq> Inl (EnvVarFormat (a @ CHR ''='' # b @ CHR ''='' # rest))"
proof (intro conjI allI impI)
  fix entries
  assume ok: "parseEnvVars s = Inr entries"
  then have m: "map_err parseEnvVar (split CHR '','' s) = Inr entries"
    by (simp add: parseEnvVars_def)
  from map_err_index [OF m] show "length entries = length (split CHR '','' s)" by simp
  from map_err_index [OF m] assms(1)
  have "parseEnvVar (split CHR '','' s ! i) = Inr (entries ! i)" by simp
  with assms(2) parseEnvVar_two_equals [OF assms(3,4), of rest]
  show "entries ! i = JObj [(''name'', JStr a), (''value'', JStr b)]" by simp
next
  assume "\<forall>t\<in>set (split CHR '','' s). CHR ''='' \<in> set t"
  then have "\<forall>t\<in>set (split CHR '','' s). \<exists>y. parseEnvVar t = Inr y"
    by (simp add: parseEnvVar_def Let_def)
  from map_err_all_Inr [OF this] show "\<exists>entries. parseEnvVars s = Inr entries"
    by (simp add: parseEnvVars_def)
next
  show "parseEnvVars s \<noteq> Inl (EnvVarFormat (a @ CHR ''='' # b @ CHR ''='' # rest))"
  proof
    assume "parseEnvVars s = Inl (EnvVarFormat (a @ CHR ''='' # b @ CHR ''='' # rest))"
    then obtain t where "parseEnvVar t = Inl (EnvVarFormat (a @ CHR ''='' # b @ CHR ''='' # rest))"
      by (auto simp: parseEnvVars_def dest: map_err_Inl)
    then show False
      by (auto simp: parseEnvVar_def Let_def split: if_splits)
  qed
qed

theorem parseEnvVars_drops_after_second_equals_witness:
  "parseEnvVars ''X=1,A=1=2,Y=3''
     = Inr [JObj [(''name'', JStr ''X''), (''value'', JStr ''1'')],
            JObj [(''name'', JStr ''A''), (''value'', JStr ''1'')],
            JObj [(''name'', JStr ''Y''), (''value'', JStr ''3'')]]
   \<and> [JObj [(''name'', JStr ''X''), (''value'', JStr ''1'')],
      JObj [(''name'', JStr ''A''), (''value'', JStr ''1'')],
      JObj [(''name'', JStr ''Y''), (''value'', JStr ''3'')]] ! 1
     = JObj [(''name'', JStr ''A''), (''value'', JStr ''1'')]"
proof -
  let ?s = "''X=1,A=1=2,Y=3''"
  let ?es = "[JObj [(''name'', JStr ''X''), (''value'', JStr ''1'')],
            JObj [(''name'', JStr ''A''), (''value'', JStr ''1'')],
            JObj [(''name'', JStr ''Y''), (''value'', JStr ''3'')]]"
  have toks: "split CHR '','' ?s = [''X=1'', ''A=1=2'', ''Y=3'']" by code_simp
  have h1: "1 < length (split CHR '','' ?s)" unfolding toks by simp
  have h2: "split CHR '','' ?s ! 1 = ''A'' @ CHR ''='' # ''1'' @ CHR ''='' # ''2''"
    unfolding toks by simp
  have h3: "CHR ''='' \<notin> set ''A''" and h4: "CHR ''='' \<notin> set ''1''" by simp_all
  have ok: "parseEnvVars ?s = Inr ?es" by code_simp
  from parseEnvVars_drops_after_second_equals [OF h1 h2 h3 h4] ok
  have "?es ! 1 = JObj [(''name'', JStr ''A''), (''value'', JStr ''1'')]" by blast
  with ok show ?thesis by (rule conjI)
qed

section \<open>The constructor's errors\<close>

text \<open>
  C8. The constructor throws one of its two input errors (the \<^verbatim>\<open>Error\<close> asking for image and
  service names or a YAML file, the \<^verbatim>\<open>TypeError\<close> about the env var format) exactly when the
  inputs are insufficient, that is \<^verbatim>\<open>(!opts.name || !opts.image) && !opts.yaml\<close>, or the env var
  string is given and one of its comma-delimited tokens has no \<open>=\<close>. An input is given when
  it is a string that is not empty, which is what the source tests. Every other failure of the
  constructor is another error.
\<close>

theorem build_InputError_iff:
  "(\<exists>e. build read_yaml opts = Inl e \<and> is_InputError e) \<longleftrightarrow>
     (missing_inputs opts
      \<or> (\<exists>s. opt_envVars opts = Some s \<and> s \<noteq> []
             \<and> (\<exists>t\<in>set (split CHR '','' s). CHR ''='' \<notin> set t)))"
proof (cases "missing_inputs opts")
  case True
  then show ?thesis by (simp add: build_def)
next
  case False
  show ?thesis
  proof (cases "parse_opt_envVars opts")
    case (Inl e)
    then have "build read_yaml opts = Inl e" "is_InputError e"
      using False by (simp_all add: build_def parse_opt_envVars_error)
    moreover have "\<exists>s. opt_envVars opts = Some s \<and> s \<noteq> []
             \<and> (\<exists>t\<in>set (split CHR '','' s). CHR ''='' \<notin> set t)"
      using Inl parse_opt_envVars_fails_iff [of opts] by blast
    ultimately show ?thesis by blast
  next
    case (Inr ev)
    then have "\<not> (\<exists>e. parse_opt_envVars opts = Inl e)" by simp
    then have "\<not> (\<exists>s. opt_envVars opts = Some s \<and> s \<noteq> []
             \<and> (\<exists>t\<in>set (split CHR '','' s). CHR ''='' \<notin> set t))"
      using parse_opt_envVars_fails_iff [of opts] by blast
    moreover have "\<not> (\<exists>e. build read_yaml opts = Inl e \<and> is_InputError e)"
      using after_parse_error [OF False Inr] by blast
    ultimately show ?thesis using False by blast
  qed
qed

theorem build_InputError_iff_witness:
  "(\<exists>e. build (\<lambda>p. None) \<lparr>opt_image = Some ''img'', opt_name = None, opt_envVars = None, opt_yaml = None\<rparr> = Inl e \<and> is_InputError e)
   \<and> (\<exists>e. build (\<lambda>p. None) \<lparr>opt_image = Some ''img'', opt_name = Some ''svc'', opt_envVars = Some ''A=1,B'', opt_yaml = None\<rparr> = Inl e \<and> is_InputError e)
   \<and> \<not> (\<exists>e. build (\<lambda>p. None) \<lparr>opt_image = Some ''img'', opt_name = Some ''svc'', opt_envVars = Some ''A=1,B=2'', opt_yaml = None\<rparr> = Inl e \<and> is_InputError e)"
  using build_InputError_iff [of "\<lambda>p. None" "\<lparr>opt_image = Some ''img'', opt_name = None, opt_envVars = None, opt_yaml = None\<rparr>"]
    build_InputError_iff [of "\<lambda>p. None" "\<lparr>opt_image = Some ''img'', opt_name = Some ''svc'', opt_envVars = Some ''A=1,B'', opt_yaml = None\<rparr>"]
    build_InputError_iff [of "\<lambda>p. None" "\<lparr>opt_image = Some ''img'', opt_name = Some ''svc'', opt_envVars = Some ''A=1,B=2'', opt_yaml = None\<rparr>"]
  by (simp add: missing_inputs_def Let_def)


text \<open>
  The constructor throws the error about the missing container exactly when it reaches the
  test of \<^verbatim>\<open>get(request, 'spec.template.spec.containers')\<close> and the value is falsy.
\<close>

lemma build_NoContainer_iff:
  "build read_yaml opts = Inl NoContainer \<longleftrightarrow>
     (\<not> missing_inputs opts
      \<and> (\<exists>ev r0 r1 r2. parse_opt_envVars opts = Inr ev \<and> load_request read_yaml opts = Inr r0
             \<and> set_name opts r0 = Inr r1 \<and> set_image opts r1 = Inr r2
             \<and> \<not> truthy (lodash_get r2 containers_path)))"
  by (auto simp: build_def bind_err_def split: sum.splits if_splits
      dest!: parse_opt_envVars_error load_request_error set_name_error set_image_error
        set_env_error read_prop_error)

text \<open>
  C5. The test \<^verbatim>\<open>!get(request, 'spec.template.spec.containers')\<close> is a test of truthiness, and
  an empty array is truthy. For a YAML file whose container list is empty and no image input
  the constructor throws nothing: it returns a Service whose descriptor has no container.
\<close>

theorem build_accepts_empty_container_list:
  "build (\<lambda>p. Some (JObj [(''metadata'', JObj [(''name'', JStr ''svc'')]),
                            (''spec'', JObj [(''template'', JObj [(''spec'',
                               JObj [(''containers'', JArr [])])])])]))
     \<lparr>opt_image = None, opt_name = None, opt_envVars = None, opt_yaml = Some ''service.yaml''\<rparr>
   = Inr \<lparr>request = JObj [(''metadata'', JObj [(''name'', JStr ''svc'')]),
                            (''spec'', JObj [(''template'', JObj [(''spec'',
                               JObj [(''containers'', JArr [])])])])],
          svc_name = Some (JStr ''svc'')\<rparr>"
  by (simp add: build_def missing_inputs_def parse_opt_envVars_def load_request_def set_name_def
      set_image_def set_env_def containers_path_def)

section \<open>The constructor on an image and a name\<close>

text \<open>
  C9. For an image and a name that are not empty, and no other input, the constructor returns
  a Service; in its descriptor \<^verbatim>\<open>spec.template.spec.containers[0].image\<close> is the image and
  \<^verbatim>\<open>metadata.name\<close> is the name, which is also \<^verbatim>\<open>this.name\<close>.
\<close>

theorem build_image_name:
  assumes "img \<noteq> []" and "nm \<noteq> []"
  shows "\<exists>svc. build read_yaml \<lparr>opt_image = Some img, opt_name = Some nm,
                     opt_envVars = None, opt_yaml = None\<rparr> = Inr svc
           \<and> member_chain (Some (request svc))
                [''spec'', ''template'', ''spec'', ''containers'', ''0'', ''image'']
               = Inr (Some (JStr img))
           \<and> member_chain (Some (request svc)) [''metadata'', ''name''] = Inr (Some (JStr nm))
           \<and> svc_name svc = Some (JStr nm)"
  using assms
  by (simp add: build_def missing_inputs_def parse_opt_envVars_def load_request_def set_name_def
      set_image_def set_env_def containers_path_def spec_path_def shell_def Let_def)

theorem build_image_name_witness:
  "\<exists>svc. build (\<lambda>p. None) \<lparr>opt_image = Some ''gcr.io/p/img'', opt_name = Some ''svc'',
                     opt_envVars = None, opt_yaml = None\<rparr> = Inr svc
           \<and> member_chain (Some (request svc))
                [''spec'', ''template'', ''spec'', ''containers'', ''0'', ''image'']
               = Inr (Some (JStr ''gcr.io/p/img''))
           \<and> member_chain (Some (request svc)) [''metadata'', ''name''] = Inr (Some (JStr ''svc''))
           \<and> svc_name svc = Some (JStr ''svc'')"
  using build_image_name [of "''gcr.io/p/img''" "''svc''" "\<lambda>p. None"] by simp

section \<open>Revision names\<close>

text \<open>
  C7. With an explicit name, a string that is not empty, generateRevisionName throws the
  resource name error exactly when the name is longer than 63 characters, and returns the name
  unchanged otherwise; nothing else about the name is looked at, and neither the previous name
  nor the random text matters.
\<close>

theorem explicit_revision_name_length_only:
  assumes "s \<noteq> []"
  shows "generateRevisionName this_name rnd (Some (JStr s)) prevName =
           (if 63 < length s then Inl ResourceName else Inr (JStr s))
         \<and> ((\<exists>e. generateRevisionName this_name rnd (Some (JStr s)) prevName = Inl e
                  \<and> is_ValidationError e) \<longleftrightarrow> 63 < length s)"
  using assms by (auto simp: generateRevisionName_def)

theorem explicit_revision_name_length_only_witness:
  "generateRevisionName None [] (Some (JStr ''svc-blue'')) None = Inr (JStr ''svc-blue'')
   \<and> generateRevisionName None [] (Some (JStr (replicate 64 CHR ''a''))) None = Inl ResourceName"
  using explicit_revision_name_length_only [of "''svc-blue''" None "[]" None]
    explicit_revision_name_length_only [of "replicate 64 CHR ''a''" None "[]" None]
  by simp

text \<open>
  The generated name when no explicit name is given and the service name is a string: with
  no previous name the counter is \<^verbatim>\<open>0001\<close>; with a previous name whose second-to-last piece
  parses to \<open>n\<close> it is \<open>n + 1\<close>, padded to four digits. The letters are the first three
  lowercase letters of the random text: three of them only when the text holds three. The
  name has at most 63 characters when the counter has at most five digits.
\<close>

lemma padStart4_1: "padStart4 ''1'' = ''0001''"
  by (simp add: padStart4_def eval_nat_numeral)

lemma generated_name_no_previous:
  "generateRevisionName (Some (JStr nm)) rnd None None
     = Inr (JStr (take 53 nm @ ''-0001-'' @ take 3 (filter is_lower rnd)))"
  by (simp add: generateRevisionName_def autoRevisionName_def padStart4_1)

lemma generated_name_counter:
  assumes "p \<noteq> []" and "2 \<le> length (split CHR ''-'' p)"
    and "parseInt (split CHR ''-'' p ! (length (split CHR ''-'' p) - 2)) = Some n"
    and "n < 9007199254740992"
  shows "generateRevisionName (Some (JStr nm)) rnd None (Some (JStr p))
     = Inr (JStr (take 53 nm @ ''-'' @ padStart4 (show_int (n + 1)) @ ''-''
                  @ take 3 (filter is_lower rnd)))"
  using assms
  by (simp add: generateRevisionName_def autoRevisionName_def next_num_def Let_def)

lemma generated_letters:
  "length (take 3 (filter is_lower rnd)) \<le> 3
   \<and> list_all is_lower (take 3 (filter is_lower rnd))
   \<and> (length (take 3 (filter is_lower rnd)) = 3 \<longleftrightarrow> 3 \<le> length (filter is_lower rnd))"
proof -
  have "list_all is_lower (filter is_lower rnd)" by (simp add: list_all_iff)
  then have "list_all is_lower (take 3 (filter is_lower rnd))"
    by (auto simp: list_all_iff dest: in_set_takeD)
  then show ?thesis by auto
qed

lemma length_dec_digits: "0 < k \<Longrightarrow> n < 10 ^ k \<Longrightarrow> length (dec_digits n) \<le> k"
proof (induction k arbitrary: n)
  case 0
  then show ?case by simp
next
  case (Suc k)
  show ?case
  proof (cases "n < 10")
    case True
    then show ?thesis by (simp add: dec_digits.simps [of n])
  next
    case False
    then have k: "0 < k" using Suc.prems(2) by (cases k) auto
    have "n div 10 < 10 ^ k" using Suc.prems(2) by (simp add: less_mult_imp_div_less mult.commute)
    from Suc.IH [OF k this] False show ?thesis
      by (simp add: dec_digits.simps [of n])
  qed
qed

lemma generated_name_length:
  assumes "0 \<le> n" and "n + 1 < 100000"
  shows "length (take 53 nm @ ''-'' @ padStart4 (show_int (n + 1)) @ ''-''
                  @ take 3 (filter is_lower rnd)) \<le> 63"
proof -
  have "nat (n + 1) < 10 ^ 5" using assms by simp
  then have "length (dec_digits (nat (n + 1))) \<le> 5"
    by (intro length_dec_digits) simp_all
  then have "length (padStart4 (show_int (n + 1))) \<le> 5"
    using assms by (simp add: padStart4_def show_int_def)
  then show ?thesis by simp
qed

text \<open>
  C6. \<^verbatim>\<open>Math.random()\<close> can return 0.5, whose text in base 36 is \<^verbatim>\<open>0.i\<close>. With the service
  name \<^verbatim>\<open>svc\<close> and the previous name \<^verbatim>\<open>svc-0005-abc\<close> the generated name is then \<^verbatim>\<open>svc-0006-i\<close>:
  the counter is 5 + 1 padded to four digits, and one letter follows it, not three.
\<close>

theorem generated_name_with_one_letter:
  "generateRevisionName (Some (JStr ''svc'')) ''0.i'' None (Some (JStr ''svc-0005-abc''))
     = Inr (JStr ''svc-0006-i'')"
  by code_simp

section \<open>Facts about lodash merge\<close>

lemma merge_fields_lookup:
  assumes "merge_fields df sf = Some mf" and "distinct (map fst sf)"
  shows "map_of mf k =
           (case map_of sf k of None \<Rightarrow> map_of df k | Some v \<Rightarrow> merge_value (map_of df k) v)"
  using assms
proof (induction sf arbitrary: df)
  case Nil
  then show ?case by simp
next
  case (Cons a sf)
  obtain k' v' where a: "a = (k', v')" by (cases a)
  from Cons.prems(1) a obtain w where
    w: "merge_value (map_of df k') v' = Some w"
    and rest: "merge_fields (AList.update k' w df) sf = Some mf"
    by (auto split: if_splits option.splits)
  from Cons.prems(2) a have d: "distinct (map fst sf)" and nk: "k' \<notin> fst ` set sf"
    by auto
  have ih: "map_of mf k =
      (case map_of sf k of None \<Rightarrow> map_of (AList.update k' w df) k
       | Some v \<Rightarrow> merge_value (map_of (AList.update k' w df) k) v)"
    by (rule Cons.IH [OF rest d])
  show ?case
  proof (cases "k = k'")
    case True
    with nk have "map_of sf k = None" by (simp add: map_of_eq_None_iff)
    with ih True w a show ?thesis by (simp add: update_conv')
  next
    case False
    then have "map_of (AList.update k' w df) k = map_of df k"
      by (simp add: update_conv')
    with ih a False show ?thesis by (simp split: option.splits)
  qed
qed

lemma merge_elems_index:
  assumes "merge_elems ds ss = Some ms"
  shows "length ms = max (length ds) (length ss)
       \<and> (\<forall>i<length ss. merge_value (if i < length ds then Some (ds ! i) else None) (ss ! i)
                           = Some (ms ! i))
       \<and> (\<forall>i. length ss \<le> i \<and> i < length ds \<longrightarrow> ms ! i = ds ! i)"
  using assms
proof (induction ss arbitrary: ds ms)
  case Nil
  then show ?case by simp
next
  case (Cons s ss)
  from Cons.prems obtain v ms' where
    v: "merge_value (case ds of [] \<Rightarrow> None | d # _ \<Rightarrow> Some d) s = Some v"
    and rest: "merge_elems (tl ds) ss = Some ms'" and ms: "ms = v # ms'"
    by (auto split: option.splits)
  note ih = Cons.IH [OF rest]
  show ?case
  proof (cases ds)
    case Nil
    with ih v ms show ?thesis
      by (auto simp: nth_Cons split: nat.splits)
  next
    case (Cons d ds')
    with ih v ms show ?thesis
      by (auto simp: nth_Cons split: nat.splits)
  qed
qed

lemma typed_walk_None [simp]: "typed_walk None ks = None"
  by (cases ks) auto

lemma typed_walk_append: "typed_walk v (ks @ ks') = typed_walk (typed_walk v ks) ks'"
proof (induction v ks rule: typed_walk.induct)
  case (3 xs k ks)
  then show ?case by (cases xs) auto
qed (auto split: if_splits)

lemma unique_keys_fields_lookup:
  "unique_keys_fields f \<Longrightarrow> map_of f k = Some v \<Longrightarrow> unique_keys v"
  by (induction f) (auto split: if_splits)

lemma unique_keys_typed_walk:
  "unique_keys t \<Longrightarrow> typed_walk (Some t) ks = Some v \<Longrightarrow> unique_keys v"
proof (induction ks arbitrary: t)
  case Nil
  then show ?case by simp
next
  case (Cons k ks)
  show ?case
  proof (cases t)
    case (JObj f)
    with Cons.prems obtain c where c: "map_of f k = Some c" "typed_walk (Some c) ks = Some v"
      by (cases "map_of f k") (auto split: if_splits)
    with Cons.prems(1) JObj have "unique_keys c" by (auto dest: unique_keys_fields_lookup)
    with c show ?thesis by (auto intro: Cons.IH)
  next
    case (JArr xs)
    with Cons.prems obtain c cs where c: "xs = c # cs" "typed_walk (Some c) ks = Some v"
      by (cases xs) (auto split: if_splits)
    with Cons.prems(1) JArr have "unique_keys c" by auto
    with c show ?thesis by (auto intro: Cons.IH)
  qed (use Cons.prems in auto)
qed

lemma merge_fields_key:
  assumes "merge_fields df sf = Some mf" and "distinct (map fst sf)" and "map_of sf k = Some sv"
  shows "\<exists>mv. map_of mf k = Some mv \<and> merge_value (map_of df k) sv = Some mv"
  using assms
proof (induction sf arbitrary: df)
  case Nil
  then show ?case by simp
next
  case (Cons a sf)
  obtain k' v' where a: "a = (k', v')" by (cases a)
  from Cons.prems(1) a obtain w where
    w: "merge_value (map_of df k') v' = Some w"
    and rest: "merge_fields (AList.update k' w df) sf = Some mf"
    by (auto split: if_splits option.splits)
  from Cons.prems(2) a have d: "distinct (map fst sf)" and nk: "k' \<notin> fst ` set sf"
    by auto
  show ?case
  proof (cases "k = k'")
    case True
    with nk have "map_of sf k = None" by (simp add: map_of_eq_None_iff)
    then have "map_of mf k = map_of (AList.update k' w df) k"
      using merge_fields_lookup [OF rest d, of k] by simp
    with True w a Cons.prems(3) show ?thesis by (simp add: update_conv')
  next
    case False
    then have "map_of (AList.update k' w df) k = map_of df k"
      by (simp add: update_conv')
    moreover from False a Cons.prems(3) have "map_of sf k = Some sv" by simp
    ultimately show ?thesis using Cons.IH [OF rest d] by simp
  qed
qed

lemma merge_value_obj_key:
  assumes "merge_value d (JObj sf) = Some m" and "distinct (map fst sf)"
    and "map_of sf k = Some sv" and "k \<noteq> ''0''"
  shows "\<exists>mf mv. m = JObj mf \<and> map_of mf k = Some mv
           \<and> merge_value (typed_walk d [k]) sv = Some mv"
proof -
  have ne: "sf \<noteq> []" using assms(3) by auto
  have *: "\<exists>mv. map_of mf k = Some mv \<and> merge_value (map_of df k) sv = Some mv"
    if "merge_fields df sf = Some mf" for df mf
    using merge_fields_key [OF that assms(2,3)] .
  show ?thesis
  proof (cases d)
    case None
    with assms(1) obtain mf where "merge_fields [] sf = Some mf" "m = JObj mf" by auto
    with * [of "[]" mf] None show ?thesis by auto
  next
    case (Some dv)
    show ?thesis
    proof (cases dv)
      case (JObj df)
      with assms(1) Some obtain mf where "merge_fields df sf = Some mf" "m = JObj mf" by auto
      with * [of df mf] Some JObj assms(4) show ?thesis by auto
    next
      case (JArr ds)
      with assms(1) Some ne show ?thesis by simp
    next
      case JNull
      with assms(1) Some obtain mf where "merge_fields [] sf = Some mf" "m = JObj mf" by auto
      with * [of "[]" mf] Some JNull show ?thesis by auto
    next
      case (JBool b)
      with assms(1) Some obtain mf where "merge_fields [] sf = Some mf" "m = JObj mf" by auto
      with * [of "[]" mf] Some JBool show ?thesis by auto
    next
      case (JNum n)
      with assms(1) Some obtain mf where "merge_fields [] sf = Some mf" "m = JObj mf" by auto
      with * [of "[]" mf] Some JNum show ?thesis by auto
    next
      case (JStr s)
      with assms(1) Some obtain mf where "merge_fields [] sf = Some mf" "m = JObj mf" by auto
      with * [of "[]" mf] Some JStr show ?thesis by auto
    qed
  qed
qed

lemma merge_value_obj_absent:
  assumes "merge_value d (JObj sf) = Some (JObj mf)" and "distinct (map fst sf)"
    and "map_of sf k = None" and "k \<noteq> ''0''"
  shows "map_of mf k = typed_walk d [k]"
proof -
  have *: "map_of mf k = map_of df k" if "merge_fields df sf = Some mf" for df
    using merge_fields_lookup [OF that assms(2), of k] assms(3) by simp
  show ?thesis
  proof (cases d)
    case None
    with assms(1) * [of "[]"] show ?thesis by auto
  next
    case (Some dv)
    with assms(1,4) * show ?thesis
      by (cases dv) (auto split: if_splits)
  qed
qed

lemma merge_value_arr_head:
  assumes "merge_value d (JArr (s # ss)) = Some m"
  shows "\<exists>mv rest. m = JArr (mv # rest) \<and> merge_value (typed_walk d [''0'']) s = Some mv"
proof -
  have *: "\<exists>mv rest. ms = mv # rest
             \<and> merge_value (case ds of [] \<Rightarrow> None | x # _ \<Rightarrow> Some x) s = Some mv"
    if "merge_elems ds (s # ss) = Some ms" for ds ms
    using that by (auto split: option.splits)
  show ?thesis
  proof (cases d)
    case None
    with assms obtain ms where "merge_elems [] (s # ss) = Some ms" "m = JArr ms" by auto
    with * [of "[]" ms] None show ?thesis by auto
  next
    case (Some dv)
    show ?thesis
    proof (cases dv)
      case (JArr ds)
      with assms Some obtain ms where "merge_elems ds (s # ss) = Some ms" "m = JArr ms" by auto
      with * [of ds ms] Some JArr show ?thesis by (cases ds) auto
    next
      case (JObj df)
      with assms Some obtain ms where "merge_elems [] (s # ss) = Some ms" "m = JArr ms"
        by (auto split: if_splits)
      with * [of "[]" ms] Some JObj show ?thesis by auto
    next
      case JNull
      with assms Some obtain ms where "merge_elems [] (s # ss) = Some ms" "m = JArr ms" by auto
      with * [of "[]" ms] Some JNull show ?thesis by auto
    next
      case (JBool b)
      with assms Some obtain ms where "merge_elems [] (s # ss) = Some ms" "m = JArr ms" by auto
      with * [of "[]" ms] Some JBool show ?thesis by auto
    next
      case (JNum n)
      with assms Some obtain ms where "merge_elems [] (s # ss) = Some ms" "m = JArr ms" by auto
      with * [of "[]" ms] Some JNum show ?thesis by auto
    next
      case (JStr x)
      with assms Some obtain ms where "merge_elems [] (s # ss) = Some ms" "m = JArr ms" by auto
      with * [of "[]" ms] Some JStr show ?thesis by auto
    qed
  qed
qed

lemma merge_value_arr_list:
  assumes "merge_value d (JArr xs) = Some m"
  shows "\<exists>ms. m = JArr ms \<and> merge_elems (arr_list d) xs = Some ms"
proof (cases d)
  case None
  with assms show ?thesis by (auto simp: arr_list_def)
next
  case (Some dv)
  with assms show ?thesis
    by (cases dv) (auto simp: arr_list_def split: if_splits)
qed

lemma merge_value_path:
  assumes "merge_value d s = Some m" and "unique_keys s" and "typed_walk (Some s) ks = Some sv"
  shows "\<exists>mv. typed_walk (Some m) ks = Some mv \<and> merge_value (typed_walk d ks) sv = Some mv"
  using assms
proof (induction ks arbitrary: d s m)
  case Nil
  then show ?case by simp
next
  case (Cons k ks)
  have step: "typed_walk d (k # ks) = typed_walk (typed_walk d [k]) ks"
    using typed_walk_append [of d "[k]" ks] by simp
  show ?case
  proof (cases s)
    case (JObj sf)
    with Cons.prems(3) obtain c where k0: "k \<noteq> ''0''"
      and c: "map_of sf k = Some c" "typed_walk (Some c) ks = Some sv"
      by (cases "map_of sf k") (auto split: if_splits)
    from Cons.prems(2) JObj c(1) have dk: "distinct (map fst sf)" and uc: "unique_keys c"
      by (auto dest: unique_keys_fields_lookup)
    from merge_value_obj_key [OF Cons.prems(1) [unfolded JObj] dk c(1) k0]
    obtain mf mc where m: "m = JObj mf" "map_of mf k = Some mc"
      and mc: "merge_value (typed_walk d [k]) c = Some mc" by blast
    from Cons.IH [OF mc uc c(2)] obtain mv where
      "typed_walk (Some mc) ks = Some mv" "merge_value (typed_walk (typed_walk d [k]) ks) sv = Some mv"
      by blast
    with m k0 step show ?thesis by simp
  next
    case (JArr xs)
    with Cons.prems(3) obtain c cs where k0: "k = ''0''"
      and c: "xs = c # cs" "typed_walk (Some c) ks = Some sv"
      by (cases xs) (auto split: if_splits)
    from Cons.prems(2) JArr c(1) have uc: "unique_keys c" by auto
    from merge_value_arr_head [OF Cons.prems(1) [unfolded JArr c(1)]]
    obtain mc rest where m: "m = JArr (mc # rest)"
      and mc: "merge_value (typed_walk d [''0'']) c = Some mc" by blast
    from Cons.IH [OF mc uc c(2)] obtain mv where
      "typed_walk (Some mc) ks = Some mv"
      "merge_value (typed_walk (typed_walk d [''0'']) ks) sv = Some mv"
      by blast
    with m k0 step show ?thesis by simp
  qed (use Cons.prems in auto)
qed

section \<open>The deep merge\<close>

text \<open>
  C3, as the claim states it: a sequence of the current descriptor replaces the sequence of
  the previous one. The previous descriptor has the unrelated property \<^verbatim>\<open>foo\<close> and one
  container with an image and a port; the current descriptor has one container with an image.
  The merged container list is not the current one: its one container has the current image
  and the previous port.
\<close>

theorem sequence_merged_by_index_counterexample:
  "merge_fields
     [(''foo'', JStr ''bar''),
      (''spec'', JObj [(''template'', JObj [(''spec'', JObj [(''containers'',
         JArr [JObj [(''image'', JStr ''old''),
                     (''ports'', JArr [JObj [(''containerPort'', JNum 8080)]])]])])])])]
     [(''spec'', JObj [(''template'', JObj [(''spec'', JObj [(''containers'',
         JArr [JObj [(''image'', JStr ''new'')]])])])])]
   = Some
     [(''foo'', JStr ''bar''),
      (''spec'', JObj [(''template'', JObj [(''spec'', JObj [(''containers'',
         JArr [JObj [(''image'', JStr ''new''),
                     (''ports'', JArr [JObj [(''containerPort'', JNum 8080)]])]])])])])]
   \<and> JArr [JObj [(''image'', JStr ''new''),
                 (''ports'', JArr [JObj [(''containerPort'', JNum 8080)]])]]
       \<noteq> JArr [JObj [(''image'', JStr ''new'')]]"
  by code_simp

text \<open>
  C3, amended. When the deep merge of the source properties \<open>sf\<close> (the current descriptor)
  into the destination properties \<open>df\<close> (the previous one) gives \<open>mf\<close>, then for every key:
  a key the source does not have keeps the destination's value; a key the source has holds the
  merge of the destination's value with the source's value. That merge is the source's value
  when it is null, a boolean, a number or a string; it is the merge key by key for two
  objects; and for two arrays it is the merge index by index: the result is as long as the
  longer array, element \<open>i\<close> of the source is merged into element \<open>i\<close> of the destination (or
  into nothing, past its end), and the elements of the destination past the end of the source
  stay. No property list of the source repeats a key.
\<close>

theorem deep_merge_overlay:
  "(distinct (map fst sf) \<and> merge_fields df sf = Some mf \<longrightarrow>
      map_of mf k =
        (case map_of sf k of None \<Rightarrow> map_of df k | Some v \<Rightarrow> merge_value (map_of df k) v))
   \<and> merge_value d JNull = Some JNull
   \<and> merge_value d (JBool b) = Some (JBool b)
   \<and> merge_value d (JNum n) = Some (JNum n)
   \<and> merge_value d (JStr s) = Some (JStr s)
   \<and> merge_value (Some (JObj df)) (JObj sf) = map_option JObj (merge_fields df sf)
   \<and> merge_value (Some (JArr ds)) (JArr ss) = map_option JArr (merge_elems ds ss)
   \<and> (merge_elems ds ss = Some ms \<longrightarrow>
        length ms = max (length ds) (length ss)
        \<and> (\<forall>i<length ss.
              merge_value (if i < length ds then Some (ds ! i) else None) (ss ! i) = Some (ms ! i))
        \<and> (\<forall>i. length ss \<le> i \<and> i < length ds \<longrightarrow> ms ! i = ds ! i))"
  using merge_fields_lookup [of df sf mf k] merge_elems_index [of ds ss ms]
  by simp

theorem deep_merge_overlay_witness:
  "merge_fields
     [(''foo'', JStr ''bar''), (''spec'', JObj [(''containers'',
        JArr [JObj [(''image'', JStr ''old''), (''ports'', JArr [JNum 8080])]])])]
     [(''spec'', JObj [(''containers'', JArr [JObj [(''image'', JStr ''new'')]])])]
   = Some [(''foo'', JStr ''bar''), (''spec'', JObj [(''containers'',
        JArr [JObj [(''image'', JStr ''new''), (''ports'', JArr [JNum 8080])]])])]
   \<and> map_of [(''foo'', JStr ''bar''), (''spec'', JObj [(''containers'',
        JArr [JObj [(''image'', JStr ''new''), (''ports'', JArr [JNum 8080])]])])] ''foo''
     = map_of [(''foo'', JStr ''bar''), (''spec'', JObj [(''containers'',
        JArr [JObj [(''image'', JStr ''old''), (''ports'', JArr [JNum 8080])]])])] ''foo''
   \<and> merge_elems [JObj [(''image'', JStr ''old''), (''ports'', JArr [JNum 8080])]]
         [JObj [(''image'', JStr ''new'')]]
       = Some [JObj [(''image'', JStr ''new''), (''ports'', JArr [JNum 8080])]]
   \<and> merge_value (Some (JObj [(''image'', JStr ''old''), (''ports'', JArr [JNum 8080])]))
         (JObj [(''image'', JStr ''new'')])
       = Some (JObj [(''image'', JStr ''new''), (''ports'', JArr [JNum 8080])])"
proof -
  let ?df = "[(''foo'', JStr ''bar''), (''spec'', JObj [(''containers'',
                JArr [JObj [(''image'', JStr ''old''), (''ports'', JArr [JNum 8080])]])])]"
  let ?sf = "[(''spec'', JObj [(''containers'', JArr [JObj [(''image'', JStr ''new'')]])])]"
  let ?mf = "[(''foo'', JStr ''bar''), (''spec'', JObj [(''containers'',
                JArr [JObj [(''image'', JStr ''new''), (''ports'', JArr [JNum 8080])]])])]"
  let ?ds = "[JObj [(''image'', JStr ''old''), (''ports'', JArr [JNum 8080])]]"
  let ?ss = "[JObj [(''image'', JStr ''new'')]]"
  let ?ms = "[JObj [(''image'', JStr ''new''), (''ports'', JArr [JNum 8080])]]"
  have h1: "distinct (map fst ?sf)" by simp
  have h2: "merge_fields ?df ?sf = Some ?mf" by code_simp
  have h3: "merge_elems ?ds ?ss = Some ?ms" by code_simp
  from deep_merge_overlay [of ?sf ?df ?mf "''foo''" None True 0 "[]" ?ds ?ss ?ms] h1 h2 h3
  have "map_of ?mf ''foo'' = map_of ?df ''foo''"
    and "merge_value (Some (?ds ! 0)) (?ss ! 0) = Some (?ms ! 0)"
    by simp_all
  with h2 h3 show ?thesis by simp
qed

section \<open>Service.merge and the previous descriptor\<close>

lemma merge_env_error: "merge_env c p = Inl e \<Longrightarrow> e = JsTypeError"
proof -
  have po: "\<And>keys env ps. push_old keys env ps = Inl e \<Longrightarrow> e = JsTypeError"
  proof -
    fix keys env ps show "push_old keys env ps = Inl e \<Longrightarrow> e = JsTypeError"
      by (induction ps arbitrary: env)
         (auto simp: bind_err_def split: sum.splits dest: read_prop_error)
  qed
  assume "merge_env c p = Inl e"
  then show ?thesis
    by (auto simp: merge_env_def bind_err_def split: sum.splits if_splits option.splits json.splits
        dest!: map_err_Inl read_prop_error po)
qed

lemma reconcile_env_error: "reconcile_env m t = Inl e \<Longrightarrow> e = JsTypeError \<or> e = OutOfModel"
  by (auto simp: reconcile_env_def bind_err_def split: sum.splits
      dest!: member_chain_error merge_env_error store_at_error)

lemma store_at_other_key:
  assumes "store_at t (p # ps) k v = Inr t'" and "q \<noteq> p"
  shows "js_get t' q = js_get t q"
proof (cases t)
  case (JObj f)
  with assms obtain c c' where "map_of f p = Some c" "t' = JObj (AList.update p c' f)"
    by (auto simp: bind_err_def split: option.splits sum.splits)
  with JObj assms(2) show ?thesis by (simp add: update_conv')
next
  case (JArr xs)
  with assms obtain c cs c' where "p = ''0''" "xs = c # cs" "t' = JArr (c' # cs)"
    by (auto simp: bind_err_def split: list.splits sum.splits if_splits)
  with JArr assms(2) show ?thesis by simp
qed (use assms in auto)

lemma store_at_member_chain:
  assumes "store_at t ps k v = Inr t'"
  shows "member_chain (Some t') (ps @ [k]) = Inr (Some v)"
  using assms
proof (induction ps arbitrary: t t')
  case Nil
  then show ?case by (cases t) (auto simp: update_conv')
next
  case (Cons p ps)
  show ?case
  proof (cases t)
    case (JObj f)
    with Cons.prems obtain c c' where "map_of f p = Some c" and c': "store_at c ps k v = Inr c'"
      and t': "t' = JObj (AList.update p c' f)"
      by (auto simp: bind_err_def split: option.splits sum.splits)
    from Cons.IH [OF c'] t' show ?thesis by (simp add: update_conv')
  next
    case (JArr xs)
    with Cons.prems obtain c cs c' where "p = ''0''" "xs = c # cs"
      and c': "store_at c ps k v = Inr c'" and t': "t' = JArr (c' # cs)"
      by (auto simp: bind_err_def split: list.splits sum.splits if_splits)
    from Cons.IH [OF c'] t' \<open>p = ''0''\<close> show ?thesis by simp
  qed (use Cons.prems in auto)
qed

lemma store_env_frame:
  assumes "store_at t [''spec'', ''template'', ''spec'', ''containers'', ''0''] ''env'' v = Inr t'"
  shows "member_chain (Some t') [''spec'', ''template'', ''metadata'', ''name'']
           = member_chain (Some t) [''spec'', ''template'', ''metadata'', ''name'']"
proof -
  from assms obtain f where t: "t = JObj f" by (cases t) auto
  with assms obtain a a' where a: "map_of f ''spec'' = Some a"
    and a': "store_at a [''template'', ''spec'', ''containers'', ''0''] ''env'' v = Inr a'"
    and t': "t' = JObj (AList.update ''spec'' a' f)"
    by (auto simp: bind_err_def split: option.splits sum.splits)
  from a' obtain g where ag: "a = JObj g" by (cases a) auto
  with a' obtain b b' where b: "map_of g ''template'' = Some b"
    and b': "store_at b [''spec'', ''containers'', ''0''] ''env'' v = Inr b'"
    and a'': "a' = JObj (AList.update ''template'' b' g)"
    by (auto simp: bind_err_def split: option.splits sum.splits)
  from b' obtain h where bh: "b = JObj h" by (cases b) auto
  with b' obtain c c' where "map_of h ''spec'' = Some c"
    and b'': "b' = JObj (AList.update ''spec'' c' h)"
    by (auto simp: bind_err_def split: option.splits sum.splits)
  with t t' a ag a'' b bh show ?thesis
    by (simp add: update_conv')
qed

text \<open>
  C1, as the claim states it: the previous descriptor is left unchanged when the merge fails.
  The current descriptor asks for a revision name of 64 characters. The method throws the
  resource name error, the Service is as before, and the previous descriptor now has the
  current image and the current revision name: it is not the previous descriptor any more.
\<close>

theorem merge_failure_changes_previous_counterexample:
  "merge ''0.4fzyo82mvyr''
     \<lparr>request = descriptor [(''name'', JStr (replicate 64 CHR ''a''))] [(''image'', JStr ''new'')],
      svc_name = Some (JStr ''svc'')\<rparr>
     (descriptor [(''name'', JStr ''svc-0005-abc'')] [(''image'', JStr ''old'')])
   = (Some ResourceName,
      \<lparr>request = descriptor [(''name'', JStr (replicate 64 CHR ''a''))] [(''image'', JStr ''new'')],
       svc_name = Some (JStr ''svc'')\<rparr>,
      descriptor [(''name'', JStr (replicate 64 CHR ''a''))] [(''image'', JStr ''new'')])
   \<and> descriptor [(''name'', JStr (replicate 64 CHR ''a''))] [(''image'', JStr ''new'')]
       \<noteq> descriptor [(''name'', JStr ''svc-0005-abc'')] [(''image'', JStr ''old'')]"
  by code_simp

text \<open>
  C1, amended. \<^verbatim>\<open>merge\<close> writes into the previous descriptor. When the method returns, the
  previous descriptor is the deep merge of the current descriptor into it, with the generated
  revision name stored at \<^verbatim>\<open>spec.template.metadata.name\<close> and then the reconciled env list
  stored at \<^verbatim>\<open>spec.template.spec.containers[0].env\<close>: every property of it other than \<^verbatim>\<open>spec\<close>
  is the one of the deep merge, the revision name and the env list read back from it are the
  stored ones, and it is the tree the Service now holds as its request; \<^verbatim>\<open>this.name\<close> is as
  before. When the method throws, the Service is as before. When it throws the resource name
  error, the previous descriptor holds the deep merge of the current descriptor into it.
\<close>

theorem merge_writes_into_previous:
  assumes "merge rnd this prevService = (r, this', prev')"
  shows "(r = None \<longrightarrow>
           (\<exists>pf tf mf n merged1 pe ce env.
              prevService = JObj pf \<and> request this = JObj tf
              \<and> merge_fields pf tf = Some mf
              \<and> generateRevisionName (svc_name this) rnd
                    (lodash_get (request this) revision_name_path)
                    (lodash_get prevService revision_name_path) = Inr n
              \<and> store_at (JObj mf) [''spec'', ''template'', ''metadata''] ''name'' n = Inr merged1
              \<and> member_chain (Some merged1) env_chain = Inr pe
              \<and> member_chain (Some (request this)) env_chain = Inr ce
              \<and> merge_env ce pe = Inr env
              \<and> store_at merged1 [''spec'', ''template'', ''spec'', ''containers'', ''0'']
                    ''env'' (JArr env) = Inr prev'
              \<and> (\<forall>q. q \<noteq> ''spec'' \<longrightarrow> js_get prev' q = map_of mf q)
              \<and> member_chain (Some prev') [''spec'', ''template'', ''metadata'', ''name'']
                    = Inr (Some n)
              \<and> member_chain (Some prev') env_chain = Inr (Some (JArr env)))
           \<and> request this' = prev' \<and> svc_name this' = svc_name this)
       \<and> (r \<noteq> None \<and> r \<noteq> Some OutOfModel \<longrightarrow> this' = this)
       \<and> (r = Some ResourceName \<longrightarrow>
            (\<exists>pf tf mf. prevService = JObj pf \<and> request this = JObj tf
               \<and> merge_fields pf tf = Some mf \<and> prev' = JObj mf))"
proof (cases prevService)
  case (JObj pf)
  show ?thesis
  proof (cases "request this")
    case tf: (JObj tf)
    show ?thesis
    proof (cases "merge_fields pf tf")
      case None
      with assms JObj tf show ?thesis by (auto simp: merge_def)
    next
      case (Some mf)
      let ?g = "generateRevisionName (svc_name this) rnd
                  (lodash_get (request this) revision_name_path)
                  (lodash_get prevService revision_name_path)"
      show ?thesis
      proof (cases "force_revision_name (JObj mf) ?g")
        case (Inl e)
        with assms JObj tf Some show ?thesis by (auto simp: merge_def Let_def)
      next
        case (Inr merged1)
        show ?thesis
        proof (cases "reconcile_env merged1 (request this)")
          case e: (Inl e)
          then have "e \<noteq> ResourceName" by (auto dest: reconcile_env_error)
          with assms JObj tf Some Inr e show ?thesis by (auto simp: merge_def Let_def)
        next
          case m2: (Inr merged2)
          from assms JObj tf Some Inr m2 have res: "r = None" "prev' = merged2"
            "this' = this\<lparr>request := merged2\<rparr>"
            by (auto simp: merge_def Let_def)
          from Inr obtain n where n: "?g = Inr n"
            and st1: "store_at (JObj mf) [''spec'', ''template'', ''metadata''] ''name'' n
                        = Inr merged1"
            by (auto simp: force_revision_name_def bind_err_def split: sum.splits)
          from m2 obtain pe ce env where
            pe: "member_chain (Some merged1) env_chain = Inr pe"
            and ce: "member_chain (Some (request this)) env_chain = Inr ce"
            and env: "merge_env ce pe = Inr env"
            and st2: "store_at merged1 [''spec'', ''template'', ''spec'', ''containers'', ''0'']
                        ''env'' (JArr env) = Inr merged2"
            by (auto simp: reconcile_env_def bind_err_def split: sum.splits)
          have top: "js_get merged2 q = map_of mf q" if "q \<noteq> ''spec''" for q
            using store_at_other_key [OF st2 that] store_at_other_key [OF st1 that] by simp
          have "member_chain (Some merged1) [''spec'', ''template'', ''metadata'', ''name'']
                  = Inr (Some n)"
            using store_at_member_chain [OF st1] by simp
          then have nm: "member_chain (Some merged2)
                           [''spec'', ''template'', ''metadata'', ''name''] = Inr (Some n)"
            using store_env_frame [OF st2] by simp
          have ev: "member_chain (Some merged2) env_chain = Inr (Some (JArr env))"
            using store_at_member_chain [OF st2] by (simp add: env_chain_def)
          from res JObj tf Some n st1 pe ce env st2 top nm ev show ?thesis
            by auto
        qed
      qed
    qed
  qed (use assms JObj in \<open>auto simp: merge_def\<close>)
qed (use assms in \<open>auto simp: merge_def\<close>)

theorem merge_writes_into_previous_witness:
  "fst (merge ''0.4fzyo82mvyr''
     \<lparr>request = descriptor [] [(''image'', JStr ''new'')], svc_name = Some (JStr ''svc'')\<rparr>
     (JObj [(''foo'', JStr ''bar''), (''spec'', JObj [(''template'', JObj [
        (''metadata'', JObj [(''name'', JStr ''svc-0005-abc'')]),
        (''spec'', JObj [(''containers'', JArr [JObj [(''image'', JStr ''old'')]])])])])])) = None
   \<and> js_get (snd (snd (merge ''0.4fzyo82mvyr''
     \<lparr>request = descriptor [] [(''image'', JStr ''new'')], svc_name = Some (JStr ''svc'')\<rparr>
     (JObj [(''foo'', JStr ''bar''), (''spec'', JObj [(''template'', JObj [
        (''metadata'', JObj [(''name'', JStr ''svc-0005-abc'')]),
        (''spec'', JObj [(''containers'', JArr [JObj [(''image'', JStr ''old'')]])])])])])))) ''foo''
     = Some (JStr ''bar'')
   \<and> member_chain (Some (snd (snd (merge ''0.4fzyo82mvyr''
     \<lparr>request = descriptor [] [(''image'', JStr ''new'')], svc_name = Some (JStr ''svc'')\<rparr>
     (JObj [(''foo'', JStr ''bar''), (''spec'', JObj [(''template'', JObj [
        (''metadata'', JObj [(''name'', JStr ''svc-0005-abc'')]),
        (''spec'', JObj [(''containers'', JArr [JObj [(''image'', JStr ''old'')]])])])])])))))
       [''spec'', ''template'', ''metadata'', ''name''] = Inr (Some (JStr ''svc-0006-fzy''))
   \<and> request (fst (snd (merge ''0.4fzyo82mvyr''
     \<lparr>request = descriptor [] [(''image'', JStr ''new'')], svc_name = Some (JStr ''svc'')\<rparr>
     (JObj [(''foo'', JStr ''bar''), (''spec'', JObj [(''template'', JObj [
        (''metadata'', JObj [(''name'', JStr ''svc-0005-abc'')]),
        (''spec'', JObj [(''containers'', JArr [JObj [(''image'', JStr ''old'')]])])])])]))))
     = snd (snd (merge ''0.4fzyo82mvyr''
     \<lparr>request = descriptor [] [(''image'', JStr ''new'')], svc_name = Some (JStr ''svc'')\<rparr>
     (JObj [(''foo'', JStr ''bar''), (''spec'', JObj [(''template'', JObj [
        (''metadata'', JObj [(''name'', JStr ''svc-0005-abc'')]),
        (''spec'', JObj [(''containers'', JArr [JObj [(''image'', JStr ''old'')]])])])])])))
   \<and> fst (snd (merge ''0.4fzyo82mvyr''
     \<lparr>request = descriptor [(''name'', JStr (replicate 64 CHR ''a''))] [(''image'', JStr ''new'')],
      svc_name = Some (JStr ''svc'')\<rparr>
     (descriptor [(''name'', JStr ''svc-0005-abc'')] [(''image'', JStr ''old'')])))
   = \<lparr>request = descriptor [(''name'', JStr (replicate 64 CHR ''a''))] [(''image'', JStr ''new'')],
      svc_name = Some (JStr ''svc'')\<rparr>"
proof -
  let ?cur = "\<lparr>request = descriptor [] [(''image'', JStr ''new'')],
               svc_name = Some (JStr ''svc'')\<rparr>"
  let ?tf = "[(''metadata'', JObj [(''name'', JStr ''svc'')]),
     (''spec'', JObj [(''template'', JObj [(''metadata'', JObj []),
        (''spec'', JObj [(''containers'', JArr [JObj [(''image'', JStr ''new'')]])])])])]"
  let ?pf = "[(''foo'', JStr ''bar''), (''spec'', JObj [(''template'', JObj [
        (''metadata'', JObj [(''name'', JStr ''svc-0005-abc'')]),
        (''spec'', JObj [(''containers'', JArr [JObj [(''image'', JStr ''old'')]])])])])]"
  let ?m = "merge ''0.4fzyo82mvyr'' ?cur (JObj ?pf)"
  let ?f = "merge ''0.4fzyo82mvyr''
     \<lparr>request = descriptor [(''name'', JStr (replicate 64 CHR ''a''))] [(''image'', JStr ''new'')],
      svc_name = Some (JStr ''svc'')\<rparr>
     (descriptor [(''name'', JStr ''svc-0005-abc'')] [(''image'', JStr ''old'')])"
  have r: "fst ?m = None" by code_simp
  have e: "fst ?f = Some ResourceName" by code_simp
  have cur: "request ?cur = JObj ?tf" by (simp add: descriptor_def)
  have foo: "\<And>mf. merge_fields ?pf ?tf = Some mf \<Longrightarrow> map_of mf ''foo'' = Some (JStr ''bar'')"
  proof -
    fix mf assume "merge_fields ?pf ?tf = Some mf"
    moreover have "map_of (the (merge_fields ?pf ?tf)) ''foo'' = Some (JStr ''bar'')"
      by code_simp
    ultimately show "map_of mf ''foo'' = Some (JStr ''bar'')" by simp
  qed
  have g: "generateRevisionName (svc_name ?cur) ''0.4fzyo82mvyr''
             (lodash_get (request ?cur) revision_name_path)
             (lodash_get (JObj ?pf) revision_name_path) = Inr (JStr ''svc-0006-fzy'')"
    by code_simp
  have "?m = (fst ?m, fst (snd ?m), snd (snd ?m))" by simp
  from merge_writes_into_previous [OF this] r
  obtain pf tf mf n where
    "JObj ?pf = JObj pf" "request ?cur = JObj tf" "merge_fields pf tf = Some mf"
    "generateRevisionName (svc_name ?cur) ''0.4fzyo82mvyr''
             (lodash_get (request ?cur) revision_name_path)
             (lodash_get (JObj ?pf) revision_name_path) = Inr n"
    and top: "\<forall>q. q \<noteq> ''spec'' \<longrightarrow> js_get (snd (snd ?m)) q = map_of mf q"
    and nm: "member_chain (Some (snd (snd ?m))) [''spec'', ''template'', ''metadata'', ''name'']
               = Inr (Some n)"
    and eq: "request (fst (snd ?m)) = snd (snd ?m)"
    by blast
  with cur g have mf: "merge_fields ?pf ?tf = Some mf" and n: "n = JStr ''svc-0006-fzy''"
    by simp_all
  from top foo [OF mf] have 1: "js_get (snd (snd ?m)) ''foo'' = Some (JStr ''bar'')" by simp
  from nm n have 2: "member_chain (Some (snd (snd ?m)))
     [''spec'', ''template'', ''metadata'', ''name''] = Inr (Some (JStr ''svc-0006-fzy''))" by simp
  have "?f = (fst ?f, fst (snd ?f), snd (snd ?f))" by simp
  from merge_writes_into_previous [OF this] e
  have 3: "fst (snd ?f) = \<lparr>request = descriptor [(''name'', JStr (replicate 64 CHR ''a''))]
      [(''image'', JStr ''new'')], svc_name = Some (JStr ''svc'')\<rparr>" by simp
  from r 1 2 eq 3 show ?thesis by (intro conjI)
qed

section \<open>Service.merge loses environment variables\<close>

lemma current_service_built:
  "build (\<lambda>p. None)
     \<lparr>opt_image = Some ''new'', opt_name = Some ''svc'', opt_envVars = Some ''NEW=y'',
      opt_yaml = None\<rparr>
   = Inr \<lparr>request = JObj [(''apiVersion'', JStr ''serving.knative.dev/v1''), (''kind'', JStr ''Service''),
         (''metadata'', JObj [(''name'', JStr ''svc'')]),
         (''spec'', JObj [(''template'', JObj [(''spec'', JObj [(''containers'',
            JArr [JObj [(''image'', JStr ''new''),
                        (''env'', JArr [JObj [(''name'', JStr ''NEW''), (''value'', JStr ''y'')]])]])])])])],
      svc_name = Some (JStr ''svc'')\<rparr>"
  by code_simp

text \<open>
  C2. The current Service is the one the constructor builds from the image \<^verbatim>\<open>new\<close>, the name
  \<^verbatim>\<open>svc\<close> and the env vars \<^verbatim>\<open>NEW=y\<close>; the previous descriptor has the env list
  \<^verbatim>\<open>[{name: OLD, value: x}]\<close>. The deep merge writes the current entry over the previous one
  at index 0, and \<^verbatim>\<open>prevEnvVars\<close> is read afterwards: the method returns with the env list
  \<^verbatim>\<open>[{name: NEW, value: y}]\<close>, and \<^verbatim>\<open>OLD\<close> is gone.
\<close>

theorem merge_loses_previous_env_var:
  "merge ''0.4fzyo82mvyr''
     \<lparr>request = JObj [(''apiVersion'', JStr ''serving.knative.dev/v1''), (''kind'', JStr ''Service''),
         (''metadata'', JObj [(''name'', JStr ''svc'')]),
         (''spec'', JObj [(''template'', JObj [(''spec'', JObj [(''containers'',
            JArr [JObj [(''image'', JStr ''new''),
                        (''env'', JArr [JObj [(''name'', JStr ''NEW''), (''value'', JStr ''y'')]])]])])])])],
      svc_name = Some (JStr ''svc'')\<rparr>
     (JObj [(''metadata'', JObj [(''name'', JStr ''svc'')]),
         (''spec'', JObj [(''template'', JObj [(''metadata'', JObj [(''name'', JStr ''svc-0005-abc'')]),
            (''spec'', JObj [(''containers'',
              JArr [JObj [(''image'', JStr ''old''),
                          (''env'', JArr [JObj [(''name'', JStr ''OLD''), (''value'', JStr ''x'')]])]])])])])])
   = (None,
      \<lparr>request = JObj [(''metadata'', JObj [(''name'', JStr ''svc'')]),
         (''spec'', JObj [(''template'', JObj [(''metadata'', JObj [(''name'', JStr ''svc-0006-fzy'')]),
            (''spec'', JObj [(''containers'',
              JArr [JObj [(''image'', JStr ''new''),
                          (''env'', JArr [JObj [(''name'', JStr ''NEW''), (''value'', JStr ''y'')]])]])])])]),
         (''apiVersion'', JStr ''serving.knative.dev/v1''), (''kind'', JStr ''Service'')],
       svc_name = Some (JStr ''svc'')\<rparr>,
      JObj [(''metadata'', JObj [(''name'', JStr ''svc'')]),
         (''spec'', JObj [(''template'', JObj [(''metadata'', JObj [(''name'', JStr ''svc-0006-fzy'')]),
            (''spec'', JObj [(''containers'',
              JArr [JObj [(''image'', JStr ''new''),
                          (''env'', JArr [JObj [(''name'', JStr ''NEW''), (''value'', JStr ''y'')]])]])])])]),
         (''apiVersion'', JStr ''serving.knative.dev/v1''), (''kind'', JStr ''Service'')])"
  by code_simp

section \<open>Facts about the env reconciliation\<close>

lemma member_chain_append:
  "member_chain v (ks @ ks') = bind_err (member_chain v ks) (\<lambda>w. member_chain w ks')"
  by (induction ks arbitrary: v) (auto simp: bind_err_def split: sum.splits)

lemma typed_walk_member_chain:
  "typed_walk (Some t) ks = Some v \<Longrightarrow> member_chain (Some t) ks = Inr (Some v)"
proof (induction ks arbitrary: t)
  case Nil
  then show ?case by simp
next
  case (Cons k ks)
  show ?case
  proof (cases t)
    case (JObj f)
    with Cons.prems obtain c where "map_of f k = Some c" "typed_walk (Some c) ks = Some v"
      by (cases "map_of f k") (auto split: if_splits)
    with JObj Cons.IH show ?thesis by simp
  next
    case (JArr xs)
    with Cons.prems obtain c cs where "k = ''0''" "xs = c # cs" "typed_walk (Some c) ks = Some v"
      by (cases xs) (auto split: if_splits)
    with JArr Cons.IH show ?thesis by simp
  qed (use Cons.prems in auto)
qed

lemma store_at_read_back:
  assumes "store_at t ps k v = Inr t'" and "typed_walk (Some t) ps = Some c" and "k \<noteq> ''0''"
  shows "typed_walk (Some t') (ps @ [k]) = Some v"
  using assms
proof (induction ps arbitrary: t t' )
  case Nil
  then show ?case by (cases t) (auto simp: update_conv')
next
  case (Cons p ps)
  show ?case
  proof (cases t)
    case (JObj f)
    with Cons.prems(2) obtain d where p0: "p \<noteq> ''0''"
      and d: "map_of f p = Some d" "typed_walk (Some d) ps = Some c"
      by (cases "map_of f p") (auto split: if_splits)
    with Cons.prems(1) JObj obtain d' where d': "store_at d ps k v = Inr d'"
      and t': "t' = JObj (AList.update p d' f)"
      by (auto simp: bind_err_def split: sum.splits)
    from Cons.IH [OF d' d(2) Cons.prems(3)] t' p0 show ?thesis
      by (simp add: update_conv')
  next
    case (JArr xs)
    with Cons.prems(2) obtain d ds where p0: "p = ''0''"
      and d: "xs = d # ds" "typed_walk (Some d) ps = Some c"
      by (cases xs) (auto split: if_splits)
    with Cons.prems(1) JArr obtain d' where d': "store_at d ps k v = Inr d'"
      and t': "t' = JArr (d' # ds)"
      by (auto simp: bind_err_def split: sum.splits)
    from Cons.IH [OF d' d(2) Cons.prems(3)] t' p0 show ?thesis by simp
  qed (use Cons.prems in auto)
qed

lemma store_name_frame:
  assumes "store_at t [''spec'', ''template'', ''metadata''] ''name'' n = Inr t'"
  shows "typed_walk (Some t') (''spec'' # ''template'' # ''spec'' # ks)
           = typed_walk (Some t) (''spec'' # ''template'' # ''spec'' # ks)"
proof -
  from assms obtain f where t: "t = JObj f" by (cases t) auto
  with assms obtain a a' where a: "map_of f ''spec'' = Some a"
    and a': "store_at a [''template'', ''metadata''] ''name'' n = Inr a'"
    and t': "t' = JObj (AList.update ''spec'' a' f)"
    by (auto simp: bind_err_def split: option.splits sum.splits)
  from a' obtain g where ag: "a = JObj g" by (cases a) auto
  with a' obtain b b' where b: "map_of g ''template'' = Some b"
    and b': "store_at b [''metadata''] ''name'' n = Inr b'"
    and a'': "a' = JObj (AList.update ''template'' b' g)"
    by (auto simp: bind_err_def split: option.splits sum.splits)
  from b' obtain h where bh: "b = JObj h" by (cases b) auto
  with b' obtain c c' where "map_of h ''metadata'' = Some c"
    and b'': "b' = JObj (AList.update ''metadata'' c' h)"
    by (auto simp: bind_err_def split: option.splits sum.splits)
  with t t' a ag a'' b bh show ?thesis
    by (simp add: update_conv')
qed

lemma push_old_eq:
  assumes "push_old keys env ps = Inr r"
  shows "r = env @ filter (\<lambda>e. \<not> js_includes keys (js_get e ''name'')) ps"
  using assms
proof (induction ps arbitrary: env)
  case Nil
  then show ?case by simp
next
  case (Cons p ps)
  from Cons.prems obtain n where n: "read_prop (Some p) ''name'' = Inr n"
    and rest: "push_old keys (if js_includes keys n then env else env @ [p]) ps = Inr r"
    by (auto simp: bind_err_def split: sum.splits)
  from n have "n = js_get p ''name''" by (cases p) auto
  with Cons.IH [OF rest] show ?case by simp
qed

lemma map_err_read_names:
  assumes "map_err (\<lambda>envVar. read_prop (Some envVar) ''name'') env = Inr keys"
  shows "keys = var_names env"
  using assms
proof (induction env arbitrary: keys)
  case Nil
  then show ?case by (simp add: var_names_def)
next
  case (Cons e env)
  from Cons.prems obtain n ks where n: "read_prop (Some e) ''name'' = Inr n"
    and ks: "map_err (\<lambda>envVar. read_prop (Some envVar) ''name'') env = Inr ks"
    and keys: "keys = n # ks"
    by (auto split: sum.splits)
  from n have "n = js_get e ''name''" by (cases e) auto
  with Cons.IH [OF ks] keys show ?case by (simp add: var_names_def)
qed

lemma merge_env_eq:
  assumes "merge_env c p = Inr env"
  shows "env = arr_list c
           @ filter (\<lambda>e. \<not> js_includes (var_names (arr_list c)) (js_get e ''name'')) (arr_list p)"
proof -
  from assms obtain env0 keys where
    env0: "(if truthy c then (case c of Some (JArr xs) \<Rightarrow> Inr xs | _ \<Rightarrow> Inl JsTypeError)
            else Inr []) = Inr env0"
    and keys: "map_err (\<lambda>envVar. read_prop (Some envVar) ''name'') env0 = Inr keys"
    and rest: "(case p of None \<Rightarrow> Inr env0 | Some JNull \<Rightarrow> Inr env0
                | Some (JArr ps) \<Rightarrow> push_old keys env0 ps | Some _ \<Rightarrow> Inl JsTypeError) = Inr env"
    by (auto simp: merge_env_def bind_err_def split: sum.splits)
  have e0: "env0 = arr_list c"
    using env0 by (auto simp: arr_list_def split: if_splits option.splits json.splits)
  have k: "keys = var_names env0" using keys by (rule map_err_read_names)
  show ?thesis
  proof (cases p)
    case None
    with rest e0 show ?thesis by (simp add: arr_list_def)
  next
    case (Some pv)
    show ?thesis
    proof (cases pv)
      case (JArr ps)
      with rest Some have "push_old keys env0 ps = Inr env" by simp
      from push_old_eq [OF this] e0 k Some JArr show ?thesis by (simp add: arr_list_def)
    qed (use rest Some e0 in \<open>auto simp: arr_list_def\<close>)
  qed
qed

lemma store_at_target_object:
  assumes "store_at t ps k v = Inr t'" and "typed_walk (Some t) ps = Some c"
  shows "\<exists>f. c = JObj f"
  using assms
proof (induction ps arbitrary: t t')
  case Nil
  then show ?case by (cases t) auto
next
  case (Cons p ps)
  show ?case
  proof (cases t)
    case (JObj f)
    with Cons.prems(2) obtain d where d: "map_of f p = Some d" "typed_walk (Some d) ps = Some c"
      by (cases "map_of f p") (auto split: if_splits)
    with Cons.prems(1) JObj obtain d' where "store_at d ps k v = Inr d'"
      by (auto simp: bind_err_def split: sum.splits)
    from Cons.IH [OF this d(2)] show ?thesis .
  next
    case (JArr xs)
    with Cons.prems(2) obtain d ds where d: "p = ''0''" "xs = d # ds" "typed_walk (Some d) ps = Some c"
      by (cases xs) (auto split: if_splits)
    with Cons.prems(1) JArr obtain d' where "store_at d ps k v = Inr d'"
      by (auto simp: bind_err_def split: sum.splits)
    from Cons.IH [OF this d(3)] show ?thesis .
  qed (use Cons.prems in auto)
qed

lemma typed_walk_name: "typed_walk (Some t) [''name''] = js_get t ''name''"
  by (cases t) auto

lemma plain_var_merged_name:
  assumes "merge_value d x = Some v" and "unique_keys x" and "plain_var x"
  shows "js_get v ''name'' = js_get x ''name''
       \<or> (js_get x ''name'' = None \<and> (\<exists>t. d = Some t \<and> js_get v ''name'' = js_get t ''name''))"
proof -
  from assms(3) obtain f where x: "x = JObj f" by (cases x) auto
  from assms(2) x have df: "distinct (map fst f)" by simp
  show ?thesis
  proof (cases "map_of f ''name''")
    case None
    show ?thesis
    proof (cases v)
      case (JObj mf)
      from merge_value_obj_absent [OF assms(1) [unfolded x JObj] df None]
      have mn: "map_of mf ''name'' = typed_walk d [''name'']" by simp
      show ?thesis
      proof (cases d)
        case None
        with mn JObj x \<open>map_of f ''name'' = None\<close> show ?thesis by simp
      next
        case (Some t)
        with mn JObj x \<open>map_of f ''name'' = None\<close> show ?thesis
          by (simp add: typed_walk_name)
      qed
    next
      case (JArr ds)
      with x None show ?thesis by simp
    qed (use assms(1) x in \<open>auto split: option.splits json.splits if_splits\<close>)
  next
    case (Some pv)
    from merge_value_obj_key [OF assms(1) [unfolded x] df Some]
    obtain mf mv where v: "v = JObj mf" "map_of mf ''name'' = Some mv"
      and mv: "merge_value (typed_walk d [''name'']) pv = Some mv" by auto
    from assms(3) x Some have "\<forall>xs. pv \<noteq> JArr xs" "\<forall>g. pv \<noteq> JObj g" by auto
    with mv have "mv = pv" by (cases pv) auto
    with v x Some show ?thesis by simp
  qed
qed

lemma js_includes_plain:
  assumes "list_all plain_var xs" and "n \<in> set (var_names xs)"
  shows "js_includes (var_names xs) n"
proof -
  from assms(2) obtain x where x: "x \<in> set xs" "n = js_get x ''name''"
    by (auto simp: var_names_def)
  with assms(1) have "plain_var x" by (simp add: list_all_iff)
  with x(2) have "same_value_zero n n"
    by (cases x) (auto split: option.splits json.splits)
  with assms(2) show ?thesis
    by (auto simp: js_includes_def list_ex_iff)
qed

lemma kept_names_distinct:
  assumes "merge_elems b xs = Some ms" and "unique_keys_list xs" and "list_all plain_var xs"
    and "\<And>e. keep e \<Longrightarrow> js_get e ''name'' \<notin> set keys"
    and "set (var_names xs) \<subseteq> set keys"
    and "distinct (var_names b)"
  shows "distinct (var_names (filter keep ms))
       \<and> set (var_names (filter keep ms)) \<subseteq> set (var_names b)"
  using assms(1,2,3,5,6)
proof (induction xs arbitrary: b ms)
  case Nil
  then show ?case by (auto simp: var_names_def distinct_map_filter)
next
  case (Cons x xs)
  from Cons.prems(1) obtain v ms' where
    v: "merge_value (case b of [] \<Rightarrow> None | d # _ \<Rightarrow> Some d) x = Some v"
    and rest: "merge_elems (tl b) xs = Some ms'" and ms: "ms = v # ms'"
    by (auto split: option.splits)
  from Cons.prems(2,3) have ux: "unique_keys x" "plain_var x"
    and uxs: "unique_keys_list xs" "list_all plain_var xs" by auto
  from Cons.prems(4) have kx: "js_get x ''name'' \<in> set keys"
    and kxs: "set (var_names xs) \<subseteq> set keys" by (auto simp: var_names_def)
  have dt: "distinct (var_names (tl b))"
    using Cons.prems(5) by (cases b) (auto simp: var_names_def)
  note ih = Cons.IH [OF rest uxs kxs dt]
  have sub: "set (var_names (tl b)) \<subseteq> set (var_names b)"
    by (cases b) (auto simp: var_names_def)
  show ?case
  proof (cases "keep v")
    case False
    with ih ms sub show ?thesis by auto
  next
    case True
    with assms(4) have "js_get v ''name'' \<notin> set keys" by blast
    with kx have "js_get v ''name'' \<noteq> js_get x ''name''" by auto
    with plain_var_merged_name [OF v ux] obtain t where
      t: "(case b of [] \<Rightarrow> None | d # _ \<Rightarrow> Some d) = Some t"
         "js_get v ''name'' = js_get t ''name''" by auto
    then obtain b' where b: "b = t # b'" by (cases b) auto
    with Cons.prems(5) have "js_get t ''name'' \<notin> set (var_names b')"
      by (simp add: var_names_def)
    with ih ms True t(2) b show ?thesis
      by (auto simp: var_names_def)
  qed
qed

lemma reconciled_names_distinct_plain:
  assumes me: "merge_elems b xs = Some ms" and uk: "unique_keys_list xs"
    and plain: "list_all plain_var xs"
    and dx: "distinct (var_names xs)" and db: "distinct (var_names b)"
  shows "distinct (var_names
           (xs @ filter (\<lambda>e. \<not> js_includes (var_names xs) (js_get e ''name'')) ms))"
proof -
  let ?keep = "\<lambda>e. \<not> js_includes (var_names xs) (js_get e ''name'')"
  have k: "js_get e ''name'' \<notin> set (var_names xs)" if "?keep e" for e
    using that js_includes_plain [OF plain] by blast
  from kept_names_distinct [OF me uk plain k _ db, of ?keep]
  have d1: "distinct (var_names (filter ?keep ms))" by simp
  have d2: "set (var_names xs) \<inter> set (var_names (filter ?keep ms)) = {}"
  proof -
    have "n \<notin> set (var_names xs)" if "n \<in> set (var_names (filter ?keep ms))" for n
    proof -
      from that obtain e where "?keep e" "n = js_get e ''name''"
        by (auto simp: var_names_def)
      with k show ?thesis by blast
    qed
    then show ?thesis by blast
  qed
  have "var_names (xs @ filter ?keep ms) = var_names xs @ var_names (filter ?keep ms)"
    by (simp add: var_names_def)
  with dx d1 d2 show ?thesis by simp
qed

lemma merge_value_object_source:
  assumes "merge_value d s = Some (JObj mf)"
  shows "\<exists>sf. s = JObj sf"
  using assms by (cases s) (auto split: option.splits json.splits if_splits)

lemma js_includes_Nil [simp]: "js_includes [] n = False"
  by (simp add: js_includes_def)

lemma var_names_Nil [simp]: "var_names [] = []"
  by (simp add: var_names_def)

section \<open>Names in the merged env list\<close>

text \<open>
  C4, as the claim states it: the names are distinct for any env lists, a current list with
  a repeated name included. The current descriptor has the env list \<^verbatim>\<open>A=1, A=2\<close> and the
  previous one has none. The method returns, and the merged env list is the current one,
  with \<^verbatim>\<open>A\<close> twice.
\<close>

theorem merged_env_repeats_name_counterexample:
  "fst (merge ''0.4fzyo82mvyr''
     \<lparr>request = descriptor []
        [(''image'', JStr ''new''), (''env'', JArr [env_var ''A'' ''1'', env_var ''A'' ''2''])],
      svc_name = Some (JStr ''svc'')\<rparr>
     (descriptor [(''name'', JStr ''svc-0005-abc'')] [(''image'', JStr ''old'')])) = None
   \<and> env_list (request (fst (snd (merge ''0.4fzyo82mvyr''
     \<lparr>request = descriptor []
        [(''image'', JStr ''new''), (''env'', JArr [env_var ''A'' ''1'', env_var ''A'' ''2''])],
      svc_name = Some (JStr ''svc'')\<rparr>
     (descriptor [(''name'', JStr ''svc-0005-abc'')] [(''image'', JStr ''old'')])))))
     = [env_var ''A'' ''1'', env_var ''A'' ''2'']
   \<and> \<not> distinct (var_names [env_var ''A'' ''1'', env_var ''A'' ''2''])"
  by code_simp

text \<open>
  C4, amended. The current descriptor has a first container, no property list of the current
  descriptor repeats a key, and every entry of the current env list is an object whose name,
  when it has one, is a primitive value. If the names of the current env list are pairwise
  distinct and the names of the previous env list are pairwise distinct, then after a
  \<^verbatim>\<open>merge\<close> that returns, the names of the Service's env list are pairwise distinct.
\<close>

theorem merged_env_names_distinct:
  assumes ok: "merge rnd this prevService = (None, this', prev')"
    and uk: "unique_keys (request this)"
    and c0: "typed_walk (Some (request this)) container0_chain = Some c"
    and plain: "list_all plain_var (env_list (request this))"
    and dc: "distinct (var_names (env_list (request this)))"
    and dp: "distinct (var_names (env_list prevService))"
  shows "distinct (var_names (env_list (request this')))"
proof -
  from ok obtain pf tf where pf: "prevService = JObj pf" and tf: "request this = JObj tf"
    by (auto simp: merge_def split: json.splits)
  from ok pf tf obtain mf where mf: "merge_fields pf tf = Some mf"
    by (auto simp: merge_def Let_def split: option.splits)
  from ok pf tf mf obtain merged1 where
    m1: "force_revision_name (JObj mf)
           (generateRevisionName (svc_name this) rnd
              (lodash_get (request this) revision_name_path)
              (lodash_get prevService revision_name_path)) = Inr merged1"
    by (auto simp: merge_def Let_def split: sum.splits)
  from ok pf tf mf m1 obtain merged2 where
    m2: "reconcile_env merged1 (request this) = Inr merged2"
    and this': "this' = this\<lparr>request := merged2\<rparr>"
    by (auto simp: merge_def Let_def split: sum.splits)
  from m1 obtain n where
    st1: "store_at (JObj mf) [''spec'', ''template'', ''metadata''] ''name'' n = Inr merged1"
    by (auto simp: force_revision_name_def bind_err_def split: sum.splits)
  from m2 obtain pe ce env where
    pe: "member_chain (Some merged1) env_chain = Inr pe"
    and ce: "member_chain (Some (request this)) env_chain = Inr ce"
    and env: "merge_env ce pe = Inr env"
    and st2: "store_at merged1 container0_chain ''env'' (JArr env) = Inr merged2"
    by (auto simp: reconcile_env_def container0_chain_def bind_err_def split: sum.splits)
  have chain: "env_chain = container0_chain @ [''env'']"
    by (simp add: env_chain_def container0_chain_def)
  let ?d5 = "typed_walk (Some prevService) container0_chain"
  have "merge_value (Some prevService) (request this) = Some (JObj mf)"
    using pf tf mf by simp
  from merge_value_path [OF this uk c0] obtain m5 where
    m5: "typed_walk (Some (JObj mf)) container0_chain = Some m5"
    and mvc: "merge_value ?d5 c = Some m5" by blast
  have w1: "typed_walk (Some merged1) container0_chain = Some m5"
    using store_name_frame [OF st1] m5 by (simp add: container0_chain_def)
  from store_at_target_object [OF st2 w1] obtain m5f where m5f: "m5 = JObj m5f" by blast
  from merge_value_object_source [OF mvc [unfolded m5f]] obtain cf where cf: "c = JObj cf"
    by blast
  note c0 = c0 [unfolded cf]
  note mv5 = mvc [unfolded cf]
  have pe_eq: "pe = map_of m5f ''env''"
    using pe typed_walk_member_chain [OF w1] m5f
    by (simp add: chain member_chain_append)
  have ce_eq: "ce = map_of cf ''env''"
    using ce typed_walk_member_chain [OF c0]
    by (simp add: chain member_chain_append)
  have cur: "env_list (request this) = arr_list ce"
    using c0 ce_eq by (simp add: env_list_def chain typed_walk_append)
  have prev: "env_list prevService = arr_list (typed_walk ?d5 [''env''])"
    by (simp add: env_list_def chain typed_walk_append)
  have res: "env_list (request this') = env"
    using store_at_read_back [OF st2 w1] this'
    by (simp add: env_list_def chain arr_list_def)
  have env_eq: "env = arr_list ce
      @ filter (\<lambda>e. \<not> js_includes (var_names (arr_list ce)) (js_get e ''name'')) (arr_list pe)"
    using env by (rule merge_env_eq)
  have ucf: "distinct (map fst cf)" "unique_keys_fields cf"
    using unique_keys_typed_walk [OF uk c0] by simp_all
  show ?thesis
  proof (cases "map_of cf ''env''")
    case None
    from merge_value_obj_absent [OF mv5 [unfolded m5f] ucf(1) None]
    have "pe = typed_walk ?d5 [''env'']" using pe_eq by simp
    with env_eq None ce_eq prev dp res show ?thesis
      by (simp add: arr_list_def)
  next
    case (Some v)
    from merge_value_obj_key [OF mv5 ucf(1) Some]
    obtain mv where mv: "map_of m5f ''env'' = Some mv"
      and mvv: "merge_value (typed_walk ?d5 [''env'']) v = Some mv"
      using m5f by auto
    show ?thesis
    proof (cases v)
      case (JArr xs)
      from merge_value_arr_list [OF mvv [unfolded JArr]] prev
      obtain ms where ms: "mv = JArr ms" "merge_elems (env_list prevService) xs = Some ms"
        by auto
      have xs: "env_list (request this) = xs" using cur ce_eq Some JArr by (simp add: arr_list_def)
      have "unique_keys v" using ucf(2) Some by (rule unique_keys_fields_lookup)
      then have "unique_keys_list xs" using JArr by simp
      from reconciled_names_distinct_plain [OF ms(2) this] plain dc dp xs
      have "distinct (var_names
           (xs @ filter (\<lambda>e. \<not> js_includes (var_names xs) (js_get e ''name'')) ms))"
        by simp
      moreover have "env = xs @ filter (\<lambda>e. \<not> js_includes (var_names xs) (js_get e ''name'')) ms"
        using env_eq ce_eq pe_eq Some JArr mv ms(1) by (simp add: arr_list_def)
      ultimately show ?thesis using res by simp
    next
      case (JObj vf)
      with env ce_eq Some show ?thesis by (simp add: merge_env_def)
    next
      case JNull
      with mvv have "mv = JNull" by simp
      with env_eq ce_eq pe_eq Some JNull mv res show ?thesis by (simp add: arr_list_def)
    next
      case (JBool b)
      with mvv have "mv = JBool b" by simp
      with env_eq ce_eq pe_eq Some JBool mv res show ?thesis by (simp add: arr_list_def)
    next
      case (JNum i)
      with mvv have "mv = JNum i" by simp
      with env_eq ce_eq pe_eq Some JNum mv res show ?thesis by (simp add: arr_list_def)
    next
      case (JStr s)
      with mvv have "mv = JStr s" by simp
      with env_eq ce_eq pe_eq Some JStr mv res show ?thesis by (simp add: arr_list_def)
    qed
  qed
qed

theorem merged_env_names_distinct_witness:
  "env_list (request (fst (snd (merge ''0.4fzyo82mvyr''
     \<lparr>request = descriptor []
        [(''image'', JStr ''new''), (''env'', JArr [env_var ''A'' ''2''])],
      svc_name = Some (JStr ''svc'')\<rparr>
     (descriptor [(''name'', JStr ''svc-0005-abc'')]
        [(''image'', JStr ''old''), (''env'', JArr [env_var ''A'' ''1'', env_var ''C'' ''4''])])))))
     = [env_var ''A'' ''2'', env_var ''C'' ''4'']
   \<and> distinct (var_names (env_list (request (fst (snd (merge ''0.4fzyo82mvyr''
     \<lparr>request = descriptor []
        [(''image'', JStr ''new''), (''env'', JArr [env_var ''A'' ''2''])],
      svc_name = Some (JStr ''svc'')\<rparr>
     (descriptor [(''name'', JStr ''svc-0005-abc'')]
        [(''image'', JStr ''old''), (''env'', JArr [env_var ''A'' ''1'', env_var ''C'' ''4''])])))))))"
proof -
  let ?cur = "\<lparr>request = descriptor []
        [(''image'', JStr ''new''), (''env'', JArr [env_var ''A'' ''2''])],
      svc_name = Some (JStr ''svc'')\<rparr>"
  let ?prev = "descriptor [(''name'', JStr ''svc-0005-abc'')]
        [(''image'', JStr ''old''), (''env'', JArr [env_var ''A'' ''1'', env_var ''C'' ''4''])]"
  let ?m = "merge ''0.4fzyo82mvyr'' ?cur ?prev"
  have r: "fst ?m = None" by code_simp
  have ok: "?m = (None, fst (snd ?m), snd (snd ?m))"
    using r by (metis prod.collapse)
  have uk: "unique_keys (request ?cur)" by code_simp
  have c0: "typed_walk (Some (request ?cur)) container0_chain
      = Some (JObj [(''image'', JStr ''new''), (''env'', JArr [env_var ''A'' ''2''])])"
    by code_simp
  have plain: "list_all plain_var (env_list (request ?cur))" by code_simp
  have dc: "distinct (var_names (env_list (request ?cur)))" by code_simp
  have dp: "distinct (var_names (env_list ?prev))" by code_simp
  have carried: "env_list (request (fst (snd ?m))) = [env_var ''A'' ''2'', env_var ''C'' ''4'']"
    by code_simp
  from carried merged_env_names_distinct [OF ok uk c0 plain dc dp] show ?thesis
    by (rule conjI)
qed

end
